theory Spec2Isabelle
  imports Main
begin

section \<open>The bounded task pool (\<open>simplePool\<close> of \<open>bilibili_mcp.js\<close>)\<close>

text \<open>
  \<open>simplePool(concurrency)\<close> closes over a queue of task objects \<open>{fn, resolve, reject}\<close>
  and a counter \<open>activeCount\<close>, and returns the scheduling function. The closure's
  variables are the fields \<open>concurrency\<close>, \<open>queue\<close> and \<open>activeCount\<close> of the record
  \<open>pool\<close>. The JavaScript runtime's part is explicit in five more fields:
  \<^item> \<open>created\<close>: how many promises the scheduling function has returned (a task object
    holds the \<open>resolve\<close> and \<open>reject\<close> of exactly one of them, named by its number);
  \<^item> \<open>promises\<close>: the state of each returned promise (\<open>None\<close> is pending);
  \<^item> \<open>fnPromise\<close>: the state of the promise that \<open>task.fn()\<close> returned;
  \<^item> \<open>stage\<close>: how far the chain \<open>.then(..).catch(..).finally(..)\<close> of a task has run;
  \<^item> \<open>started\<close>: the calls of \<open>runTask\<close>, in order.
  The concurrency limit and the counter are integers (a count of tasks).
\<close>

datatype ('v, 'e) outcome = Resolved 'v | Rejected 'e

record 'f task =
  fn :: 'f
  promise :: nat

datatype stage = NotStarted | AwaitThen | AwaitFinally | Done

record ('f, 'v, 'e) pool =
  concurrency :: int
  queue :: "'f task list"
  activeCount :: int
  created :: nat
  promises :: "nat \<Rightarrow> ('v, 'e) outcome option"
  fnPromise :: "nat \<Rightarrow> ('v, 'e) outcome option"
  stage :: "nat \<Rightarrow> stage"
  started :: "'f task list"

definition simplePool :: "int \<Rightarrow> ('f, 'v, 'e) pool" where
  "simplePool c =
     \<lparr>concurrency = c, queue = [], activeCount = 0, created = 0,
      promises = (\<lambda>_. None), fnPromise = (\<lambda>_. None), stage = (\<lambda>_. NotStarted),
      started = []\<rparr>"

text \<open>
  \<open>runTask\<close>: \<open>activeCount++\<close>, then \<open>task.fn()\<close> is called and the three handlers are
  attached to the promise it returns; none of them runs before the current job ends.
  A task's \<open>fn\<close> is an asynchronous operation, as at the one call site (line 316):
  calling it returns a promise and does not throw.
\<close>

definition runTask :: "'f task \<Rightarrow> ('f, 'v, 'e) pool \<Rightarrow> ('f, 'v, 'e) pool" where
  "runTask t s =
     s\<lparr>activeCount := activeCount s + 1,
       stage := (stage s)(promise t := AwaitThen),
       started := started s @ [t]\<rparr>"

text \<open>\<open>processQueue\<close>: one \<open>if\<close>, at most one task per call.\<close>

definition processQueue :: "('f, 'v, 'e) pool \<Rightarrow> ('f, 'v, 'e) pool" where
  "processQueue s =
     (if activeCount s < concurrency s \<and> length (queue s) > 0
      then (case queue s of
              [] \<Rightarrow> s
            | t # rest \<Rightarrow> runTask t (s\<lparr>queue := rest\<rparr>))
      else s)"

text \<open>
  The returned function: \<open>new Promise\<close> runs its executor at once, which pushes the task
  object and calls \<open>processQueue\<close>. The result is the new promise's number and the pool.
\<close>

definition schedule :: "'f \<Rightarrow> ('f, 'v, 'e) pool \<Rightarrow> nat \<times> ('f, 'v, 'e) pool" where
  "schedule f s =
     (let p = created s;
          s1 = s\<lparr>created := Suc p\<rparr>;
          s2 = s1\<lparr>queue := queue s1 @ [\<lparr>fn = f, promise = p\<rparr>]\<rparr>
      in (p, processQueue s2))"

text \<open>
  \<open>task.resolve(res)\<close> and \<open>task.reject(err)\<close>: the settling functions of a promise do
  nothing once it is settled.
\<close>

definition settle :: "nat \<Rightarrow> ('v, 'e) outcome \<Rightarrow> ('f, 'v, 'e) pool \<Rightarrow> ('f, 'v, 'e) pool" where
  "settle p oc s =
     (if promises s p = None then s\<lparr>promises := (promises s)(p := Some oc)\<rparr> else s)"

text \<open>The handler of \<open>.finally\<close>: \<open>activeCount--; processQueue()\<close>.\<close>

definition onFinally :: "('f, 'v, 'e) pool \<Rightarrow> ('f, 'v, 'e) pool" where
  "onFinally s = processQueue (s\<lparr>activeCount := activeCount s - 1\<rparr>)"

text \<open>
  What can happen to a pool, one job of the event loop at a time:
  \<^item> \<open>Submit f\<close>: a caller calls the scheduling function with \<open>f\<close>;
  \<^item> \<open>FnSettled p oc\<close>: the promise returned by the \<open>fn\<close> of task \<open>p\<close> settles with \<open>oc\<close>
    (possible once, after \<open>runTask\<close> called \<open>fn\<close>);
  \<^item> \<open>RunThenCatch p\<close>: the handler of \<open>.then\<close> (on \<open>Resolved\<close>) or of \<open>.catch\<close> (on
    \<open>Rejected\<close>) of task \<open>p\<close> runs, after the promise of \<open>fn\<close> has settled;
  \<^item> \<open>RunFinally p\<close>: the handler of \<open>.finally\<close> of task \<open>p\<close> runs, after that.
  An event that the runtime cannot produce in a state leaves the state as it is.
\<close>

datatype ('f, 'v, 'e) event =
    Submit 'f
  | FnSettled nat "('v, 'e) outcome"
  | RunThenCatch nat
  | RunFinally nat

fun step :: "('f, 'v, 'e) event \<Rightarrow> ('f, 'v, 'e) pool \<Rightarrow> ('f, 'v, 'e) pool" where
  "step (Submit f) s = snd (schedule f s)"
| "step (FnSettled p oc) s =
     (if stage s p = AwaitThen \<and> fnPromise s p = None
      then s\<lparr>fnPromise := (fnPromise s)(p := Some oc)\<rparr> else s)"
| "step (RunThenCatch p) s =
     (if stage s p = AwaitThen
      then (case fnPromise s p of
              None \<Rightarrow> s
            | Some oc \<Rightarrow> (settle p oc s)\<lparr>stage := (stage s)(p := AwaitFinally)\<rparr>)
      else s)"
| "step (RunFinally p) s =
     (if stage s p = AwaitFinally
      then onFinally (s\<lparr>stage := (stage s)(p := Done)\<rparr>)
      else s)"

definition exec :: "('f, 'v, 'e) event list \<Rightarrow> ('f, 'v, 'e) pool \<Rightarrow> ('f, 'v, 'e) pool" where
  "exec es s = fold step es s"

text \<open>Tasks whose \<open>runTask\<close> has been called and whose \<open>.finally\<close> handler has not run.\<close>

definition inFlight :: "('f, 'v, 'e) pool \<Rightarrow> 'f task list" where
  "inFlight s = filter (\<lambda>t. stage s (promise t) \<noteq> Done) (started s)"

text \<open>Tasks that have been started and whose returned promise is still pending.\<close>

definition unsettled :: "('f, 'v, 'e) pool \<Rightarrow> 'f task list" where
  "unsettled s = filter (\<lambda>t. promises s (promise t) = None) (started s)"

subsection \<open>The submissions of an event sequence\<close>

text \<open>
  The functions handed to the scheduling function, in the order of the calls, and the
  task objects the calls build: the \<open>k\<close>-th call (from 0) builds the task object that
  holds the \<open>k\<close>-th function and the settling functions of promise \<open>k\<close>.
\<close>

fun submissions :: "('f, 'v, 'e) event list \<Rightarrow> 'f list" where
  "submissions [] = []"
| "submissions (Submit f # es) = f # submissions es"
| "submissions (e # es) = submissions es"

definition taskObjects :: "'f list \<Rightarrow> 'f task list" where
  "taskObjects fs = map (\<lambda>(p, f). \<lparr>fn = f, promise = p\<rparr>) (zip [0..<length fs] fs)"

subsection \<open>The advance step as the specification words it\<close>

text \<open>
  The specification's "Advance": \<^emph>\<open>while\<close> \<open>activeCount < limit\<close> and the queue is
  non-empty, dequeue the head, increment \<open>activeCount\<close> and begin executing it. This
  definition follows the specification's words, not the source; \<open>spec_step\<close> is \<open>step\<close>
  with this loop in the two places where the source calls \<open>processQueue\<close>.
\<close>

function advance :: "('f, 'v, 'e) pool \<Rightarrow> ('f, 'v, 'e) pool" where
  "advance s =
     (if activeCount s < concurrency s \<and> queue s \<noteq> []
      then advance (runTask (hd (queue s)) (s\<lparr>queue := tl (queue s)\<rparr>))
      else s)"
  by pat_completeness auto

termination
  by (relation "measure (\<lambda>s. length (queue s))") (auto simp: runTask_def)

declare advance.simps [simp del]

fun spec_step :: "('f, 'v, 'e) event \<Rightarrow> ('f, 'v, 'e) pool \<Rightarrow> ('f, 'v, 'e) pool" where
  "spec_step (Submit f) s =
     advance (s\<lparr>created := Suc (created s),
                queue := queue s @ [\<lparr>fn = f, promise = created s\<rparr>]\<rparr>)"
| "spec_step (FnSettled p oc) s = step (FnSettled p oc) s"
| "spec_step (RunThenCatch p) s = step (RunThenCatch p) s"
| "spec_step (RunFinally p) s =
     (if stage s p = AwaitFinally
      then advance (s\<lparr>stage := (stage s)(p := Done), activeCount := activeCount s - 1\<rparr>)
      else s)"

definition spec_exec :: "('f, 'v, 'e) event list \<Rightarrow> ('f, 'v, 'e) pool \<Rightarrow> ('f, 'v, 'e) pool" where
  "spec_exec es s = fold spec_step es s"

subsection \<open>The same run with another outcome for one task\<close>

text \<open>
  \<open>withOutcome p oc\<close> changes what the promise of the \<open>fn\<close> of task \<open>p\<close> settles with,
  and nothing else of an event.
\<close>

fun withOutcome :: "nat \<Rightarrow> ('v, 'e) outcome \<Rightarrow> ('f, 'v, 'e) event \<Rightarrow> ('f, 'v, 'e) event" where
  "withOutcome p oc (FnSettled q oc') = FnSettled q (if q = p then oc else oc')"
| "withOutcome p oc e = e"

subsection \<open>Invariants, as predicates on a pool\<close>

text \<open>
  \<open>slots_ok\<close>: the counter never passes the limit, and a task waits only when no slot
  is free. \<open>order_ok\<close>: the started tasks followed by the waiting ones are the promises
  in the order of their creation, and a task has left \<open>NotStarted\<close> exactly when it has
  been started. \<open>outcome_ok\<close>: a returned promise is settled exactly when the handler
  of \<open>.then\<close>/\<open>.catch\<close> has run, with the outcome of the promise of \<open>fn\<close>.
  \<open>count_ok\<close>: the counter is the number of tasks in flight.
\<close>

definition slots_ok :: "('f, 'v, 'e) pool \<Rightarrow> bool" where
  "slots_ok s \<longleftrightarrow> activeCount s \<le> max 0 (concurrency s) \<and>
     (queue s \<noteq> [] \<longrightarrow> concurrency s \<le> activeCount s)"

definition order_ok :: "('f, 'v, 'e) pool \<Rightarrow> bool" where
  "order_ok s \<longleftrightarrow>
     map promise (started s) @ map promise (queue s) = [0..<created s] \<and>
     (\<forall>p. p \<in> promise ` set (started s) \<longleftrightarrow> stage s p \<noteq> NotStarted)"

definition outcome_ok :: "('f, 'v, 'e) pool \<Rightarrow> bool" where
  "outcome_ok s \<longleftrightarrow>
     (\<forall>p. (stage s p = NotStarted \<longrightarrow> fnPromise s p = None) \<and>
          (stage s p = NotStarted \<or> stage s p = AwaitThen \<longrightarrow> promises s p = None) \<and>
          (stage s p = AwaitFinally \<or> stage s p = Done \<longrightarrow>
             fnPromise s p \<noteq> None \<and> promises s p = fnPromise s p))"

definition count_ok :: "('f, 'v, 'e) pool \<Rightarrow> bool" where
  "count_ok s \<longleftrightarrow> activeCount s = int (length (inFlight s))"

text \<open>
  \<open>fifo_ok fs\<close>: the started tasks followed by the waiting ones are the task objects of
  the submissions \<open>fs\<close>. \<open>idle\<close>: nothing has ever been started. \<open>same_but p\<close>: two pools
  differ at most in the outcomes stored for task \<open>p\<close>.
\<close>

definition fifo_ok :: "'f list \<Rightarrow> ('f, 'v, 'e) pool \<Rightarrow> bool" where
  "fifo_ok fs s \<longleftrightarrow> started s @ queue s = taskObjects fs \<and> created s = length fs"

definition idle :: "('f, 'v, 'e) pool \<Rightarrow> bool" where
  "idle s \<longleftrightarrow> activeCount s = 0 \<and> started s = [] \<and> stage s = (\<lambda>_. NotStarted) \<and>
     promises s = (\<lambda>_. None) \<and> fnPromise s = (\<lambda>_. None)"

definition same_but :: "nat \<Rightarrow> ('f, 'v, 'e) pool \<Rightarrow> ('f, 'v, 'e) pool \<Rightarrow> bool" where
  "same_but p s s' \<longleftrightarrow>
     concurrency s' = concurrency s \<and> queue s' = queue s \<and> activeCount s' = activeCount s \<and>
     created s' = created s \<and> stage s' = stage s \<and> started s' = started s \<and>
     (\<forall>q. q \<noteq> p \<longrightarrow> promises s' q = promises s q \<and> fnPromise s' q = fnPromise s q) \<and>
     (promises s' p = None \<longleftrightarrow> promises s p = None) \<and>
     (fnPromise s' p = None \<longleftrightarrow> fnPromise s p = None)"

section \<open>The tool \<open>get_video_comments\<close>\<close>

subsection \<open>Strings\<close>

text \<open>
  A JavaScript string is modelled by its UTF-8 bytes. The source's literals outside
  ASCII are the constants below, each the bytes of the literal at the line named.
  A prefix of a string is a prefix of its bytes, and a search for an ASCII string finds
  the same occurrences in the bytes, so \<open>includes\<close> and "begins with" keep their meaning.
\<close>

text \<open>\<open>url_view\<close>: \<open>apiEndpoints.view\<close>.\<close>

definition url_view :: string where
  "url_view =
     ''https://api.bilibili.com/x/web-interface/view''"

text \<open>\<open>url_reply\<close>: \<open>apiEndpoints.reply\<close>.\<close>

definition url_reply :: string where
  "url_reply =
     ''https://api.bilibili.com/x/v2/reply''"

text \<open>\<open>url_replyReply\<close>: \<open>apiEndpoints.replyReply\<close>.\<close>

definition url_replyReply :: string where
  "url_replyReply =
     ''https://api.bilibili.com/x/v2/reply/reply''"

text \<open>\<open>video_url\<close>: the prefix of every \<open>Referer\<close>.\<close>

definition video_url :: string where
  "video_url =
     ''https://www.bilibili.com/video/''"

text \<open>\<open>msg_unknown_network\<close>: the fallback for an empty \<open>error.message\<close> (lines 94, 120).\<close>

definition msg_unknown_network :: string where
  "msg_unknown_network =
     [CHR 0xE6, CHR 0x9C, CHR 0xAA, CHR 0xE7, CHR 0x9F, CHR 0xA5, CHR 0xE7, CHR 0xBD,
     CHR 0x91, CHR 0xE7, CHR 0xBB, CHR 0x9C, CHR 0xE9, CHR 0x94, CHR 0x99, CHR 0xE8,
     CHR 0xAF, CHR 0xAF]"

text \<open>\<open>msg_video_info_failed\<close>: the prefix of both messages of \<open>getVideoInfo\<close> (lines 89, 94).\<close>

definition msg_video_info_failed :: string where
  "msg_video_info_failed =
     [CHR 0xE8, CHR 0x8E, CHR 0xB7, CHR 0xE5, CHR 0x8F, CHR 0x96, CHR 0xE8, CHR 0xA7,
     CHR 0x86, CHR 0xE9, CHR 0xA2, CHR 0x91, CHR 0xE4, CHR 0xBF, CHR 0xA1, CHR 0xE6,
     CHR 0x81, CHR 0xAF, CHR 0xE5, CHR 0xA4, CHR 0xB1, CHR 0xE8, CHR 0xB4, CHR 0xA5]"

text \<open>\<open>msg_timeout\<close>: the message for \<open>ECONNABORTED\<close> (line 119).\<close>

definition msg_timeout :: string where
  "msg_timeout =
     [CHR 0xE8, CHR 0xAF, CHR 0xB7, CHR 0xE6, CHR 0xB1, CHR 0x82, CHR 0xE8, CHR 0xB6,
     CHR 0x85, CHR 0xE6, CHR 0x97, CHR 0xB6, CHR 0xEF, CHR 0xBC, CHR 0x8C, CHR 0xE8,
     CHR 0xAF, CHR 0xB7, CHR 0xE7, CHR 0xA8, CHR 0x8D, CHR 0xE5, CHR 0x90, CHR 0x8E,
     CHR 0xE9, CHR 0x87, CHR 0x8D, CHR 0xE8, CHR 0xAF, CHR 0x95]"

text \<open>\<open>msg_comments_failed\<close>: the prefix of the other message of \<open>fetchComments\<close> (line 120).\<close>

definition msg_comments_failed :: string where
  "msg_comments_failed =
     [CHR 0xE8, CHR 0x8E, CHR 0xB7, CHR 0xE5, CHR 0x8F, CHR 0x96, CHR 0xE4, CHR 0xB8,
     CHR 0xBB, CHR 0xE8, CHR 0xAF, CHR 0x84, CHR 0xE8, CHR 0xAE, CHR 0xBA, CHR 0xE5,
     CHR 0xA4, CHR 0xB1, CHR 0xE8, CHR 0xB4, CHR 0xA5] @ '': ''"

text \<open>\<open>msg_cookie\<close>: the message of line 229.\<close>

definition msg_cookie :: string where
  "msg_cookie =
     [CHR 0xE5, CHR 0xBF, CHR 0x85, CHR 0xE9, CHR 0xA1, CHR 0xBB, CHR 0xE6, CHR 0x8F,
     CHR 0x90, CHR 0xE4, CHR 0xBE, CHR 0x9B, CHR 0xE6, CHR 0x9C, CHR 0x89, CHR 0xE6,
     CHR 0x95, CHR 0x88, CHR 0xE7, CHR 0x9A, CHR 0x84] @ '' B '' @ [CHR 0xE7, CHR 0xAB,
     CHR 0x99] @ '' Cookie'' @ [CHR 0xE3, CHR 0x80, CHR 0x82, CHR 0xE8, CHR 0xAF, CHR 0xB7,
     CHR 0xE9, CHR 0x80, CHR 0x9A, CHR 0xE8, CHR 0xBF, CHR 0x87, CHR 0xE5, CHR 0x8F,
     CHR 0x82, CHR 0xE6, CHR 0x95, CHR 0xB0, CHR 0xE4, CHR 0xBC, CHR 0xA0, CHR 0xE5,
     CHR 0x85, CHR 0xA5, CHR 0xE6, CHR 0x88, CHR 0x96, CHR 0xE8, CHR 0xAE, CHR 0xBE,
     CHR 0xE7, CHR 0xBD, CHR 0xAE] @ '' BILIBILI_COOKIE '' @ [CHR 0xE7, CHR 0x8E, CHR 0xAF,
     CHR 0xE5, CHR 0xA2, CHR 0x83, CHR 0xE5, CHR 0x8F, CHR 0x98, CHR 0xE9, CHR 0x87,
     CHR 0x8F, CHR 0xE3, CHR 0x80, CHR 0x82]"

text \<open>\<open>msg_no_id\<close>: the message of line 231.\<close>

definition msg_no_id :: string where
  "msg_no_id =
     [CHR 0xE5, CHR 0xBF, CHR 0x85, CHR 0xE9, CHR 0xA1, CHR 0xBB, CHR 0xE6, CHR 0x8F,
     CHR 0x90, CHR 0xE4, CHR 0xBE, CHR 0x9B] @ '' bvid '' @ [CHR 0xE6, CHR 0x88, CHR 0x96] @
     '' aid '' @ [CHR 0xE4, CHR 0xB9, CHR 0x8B, CHR 0xE4, CHR 0xB8, CHR 0x80]"

text \<open>\<open>msg_pageSize\<close>: the message of line 232.\<close>

definition msg_pageSize :: string where
  "msg_pageSize =
     ''pageSize '' @ [CHR 0xE5, CHR 0xBF, CHR 0x85, CHR 0xE9, CHR 0xA1, CHR 0xBB, CHR 0xE5,
     CHR 0x9C, CHR 0xA8] @ '' 1-49 '' @ [CHR 0xE4, CHR 0xB9, CHR 0x8B, CHR 0xE9, CHR 0x97,
     CHR 0xB4]"

text \<open>\<open>msg_sort\<close>: the message of line 233.\<close>

definition msg_sort :: string where
  "msg_sort =
     ''sort '' @ [CHR 0xE5, CHR 0xBF, CHR 0x85, CHR 0xE9, CHR 0xA1, CHR 0xBB, CHR 0xE6,
     CHR 0x98, CHR 0xAF] @ '' 0 '' @ [CHR 0xE6, CHR 0x88, CHR 0x96] @ '' 1''"

text \<open>\<open>msg_not_logged_in\<close>: the message for code -101 (line 248).\<close>

definition msg_not_logged_in :: string where
  "msg_not_logged_in =
     [CHR 0xE8, CHR 0xB4, CHR 0xA6, CHR 0xE5, CHR 0x8F, CHR 0xB7, CHR 0xE6, CHR 0x9C,
     CHR 0xAA, CHR 0xE7, CHR 0x99, CHR 0xBB, CHR 0xE5, CHR 0xBD, CHR 0x95, CHR 0xE6,
     CHR 0x88, CHR 0x96] @ '' Cookie '' @ [CHR 0xE5, CHR 0xB7, CHR 0xB2, CHR 0xE8, CHR 0xBF,
     CHR 0x87, CHR 0xE6, CHR 0x9C, CHR 0x9F]"

text \<open>\<open>msg_forbidden\<close>: the message for code -403 (line 249).\<close>

definition msg_forbidden :: string where
  "msg_forbidden =
     [CHR 0xE8, CHR 0xAE, CHR 0xBF, CHR 0xE9, CHR 0x97, CHR 0xAE, CHR 0xE6, CHR 0x9D,
     CHR 0x83, CHR 0xE9, CHR 0x99, CHR 0x90, CHR 0xE4, CHR 0xB8, CHR 0x8D, CHR 0xE8,
     CHR 0xB6, CHR 0xB3]"

text \<open>\<open>msg_not_found\<close>: the message for code -404 (line 250).\<close>

definition msg_not_found :: string where
  "msg_not_found =
     [CHR 0xE8, CHR 0xA7, CHR 0x86, CHR 0xE9, CHR 0xA2, CHR 0x91, CHR 0xE4, CHR 0xB8,
     CHR 0x8D, CHR 0xE5, CHR 0xAD, CHR 0x98, CHR 0xE5, CHR 0x9C, CHR 0xA8, CHR 0xE6,
     CHR 0x88, CHR 0x96, CHR 0xE5, CHR 0xB7, CHR 0xB2, CHR 0xE8, CHR 0xA2, CHR 0xAB,
     CHR 0xE5, CHR 0x88, CHR 0xA0, CHR 0xE9, CHR 0x99, CHR 0xA4]"

text \<open>\<open>msg_api_error\<close>: the start of the message of line 251.\<close>

definition msg_api_error :: string where
  "msg_api_error =
     ''B '' @ [CHR 0xE7, CHR 0xAB, CHR 0x99] @ '' API '' @ [CHR 0xE9, CHR 0x94, CHR 0x99,
     CHR 0xE8, CHR 0xAF, CHR 0xAF] @ '' (''"

text \<open>\<open>failure_prefix\<close>: the text before \<open>error.message\<close> in the \<open>catch\<close> of line 266.\<close>

definition failure_prefix :: string where
  "failure_prefix =
     [CHR 0xE2, CHR 0x9D, CHR 0x8C] @ '' '' @ [CHR 0xE8, CHR 0x8E, CHR 0xB7, CHR 0xE5,
     CHR 0x8F, CHR 0x96, CHR 0xE8, CHR 0xAF, CHR 0x84, CHR 0xE8, CHR 0xAE, CHR 0xBA,
     CHR 0xE5, CHR 0xA4, CHR 0xB1, CHR 0xE8, CHR 0xB4, CHR 0xA5] @ '': ''"

text \<open>\<open>md_title\<close>: line 299.\<close>

definition md_title :: string where
  "md_title =
     ''## '' @ [CHR 0xF0, CHR 0x9F, CHR 0x93, CHR 0xBA] @ '' B '' @ [CHR 0xE7, CHR 0xAB,
     CHR 0x99, CHR 0xE8, CHR 0xAF, CHR 0x84, CHR 0xE8, CHR 0xAE, CHR 0xBA, CHR 0xE5,
     CHR 0x88, CHR 0x86, CHR 0xE6, CHR 0x9E, CHR 0x90, CHR 0xE7, CHR 0xBB, CHR 0x93,
     CHR 0xE6, CHR 0x9E, CHR 0x9C, CHR 0x0A, CHR 0x0A]"

text \<open>\<open>md_current\<close>: line 300, before the page number.\<close>

definition md_current :: string where
  "md_current =
     [CHR 0xF0, CHR 0x9F, CHR 0x93, CHR 0x84] @ '' **'' @ [CHR 0xE5, CHR 0xBD, CHR 0x93,
     CHR 0xE5, CHR 0x89, CHR 0x8D, CHR 0xE6, CHR 0x98, CHR 0xBE, CHR 0xE7, CHR 0xA4,
     CHR 0xBA] @ ''**: '' @ [CHR 0xE7, CHR 0xAC, CHR 0xAC] @ '' ''"

text \<open>\<open>md_page_unit\<close>: line 300, after the number of pages.\<close>

definition md_page_unit :: string where
  "md_page_unit =
     '' '' @ [CHR 0xE9, CHR 0xA1, CHR 0xB5, CHR 0x0A]"

text \<open>\<open>md_total\<close>: line 301, before the count.\<close>

definition md_total :: string where
  "md_total =
     [CHR 0xF0, CHR 0x9F, CHR 0x93, CHR 0x8A] @ '' **'' @ [CHR 0xE8, CHR 0xAF, CHR 0x84,
     CHR 0xE8, CHR 0xAE, CHR 0xBA, CHR 0xE6, CHR 0x80, CHR 0xBB, CHR 0xE6, CHR 0x95,
     CHR 0xB0] @ ''**: ''"

text \<open>\<open>md_total_unit\<close>: line 301, after the count.\<close>

definition md_total_unit :: string where
  "md_total_unit =
     '' '' @ [CHR 0xE6, CHR 0x9D, CHR 0xA1, CHR 0x0A, CHR 0x0A]"

text \<open>\<open>md_no_comments\<close>: line 306.\<close>

definition md_no_comments :: string where
  "md_no_comments =
     [CHR 0xF0, CHR 0x9F, CHR 0x98, CHR 0xB4] @ '' **'' @ [CHR 0xE6, CHR 0xAD, CHR 0xA4,
     CHR 0xE9, CHR 0xA1, CHR 0xB5, CHR 0xE9, CHR 0x9D, CHR 0xA2, CHR 0xE6, CHR 0xB2,
     CHR 0xA1, CHR 0xE6, CHR 0x9C, CHR 0x89, CHR 0xE8, CHR 0xAF, CHR 0x84, CHR 0xE8,
     CHR 0xAE, CHR 0xBA, CHR 0xE3, CHR 0x80, CHR 0x82] @ ''**'' @ [CHR 0x0A, CHR 0x0A]"

text \<open>\<open>md_done_empty\<close>: line 307.\<close>

definition md_done_empty :: string where
  "md_done_empty =
     [CHR 0xE2, CHR 0x9C, CHR 0x85] @ '' '' @ [CHR 0xE5, CHR 0x88, CHR 0x86, CHR 0xE6,
     CHR 0x9E, CHR 0x90, CHR 0xE5, CHR 0xAE, CHR 0x8C, CHR 0xE6, CHR 0x88, CHR 0x90,
     CHR 0xE3, CHR 0x80, CHR 0x82, CHR 0xE5, CHR 0xA6, CHR 0x82, CHR 0xE6, CHR 0x9E,
     CHR 0x9C, CHR 0xE8, CHR 0xA7, CHR 0x86, CHR 0xE9, CHR 0xA2, CHR 0x91, CHR 0xE6,
     CHR 0x9C, CHR 0x89, CHR 0xE6, CHR 0x9B, CHR 0xB4, CHR 0xE5, CHR 0xA4, CHR 0x9A,
     CHR 0xE8, CHR 0xAF, CHR 0x84, CHR 0xE8, CHR 0xAE, CHR 0xBA, CHR 0xEF, CHR 0xBC,
     CHR 0x8C, CHR 0xE8, CHR 0xAF, CHR 0xB7, CHR 0xE5, CHR 0xB0, CHR 0x9D, CHR 0xE8,
     CHR 0xAF, CHR 0x95, CHR 0xE8, CHR 0xAF, CHR 0xB7, CHR 0xE6, CHR 0xB1, CHR 0x82,
     CHR 0xE5, CHR 0x85, CHR 0xB6, CHR 0xE4, CHR 0xBB, CHR 0x96, CHR 0xE9, CHR 0xA1,
     CHR 0xB5, CHR 0xE9, CHR 0x9D, CHR 0xA2, CHR 0xE3, CHR 0x80, CHR 0x82]"

text \<open>\<open>md_list\<close>: line 329.\<close>

definition md_list :: string where
  "md_list =
     ''### '' @ [CHR 0xF0, CHR 0x9F, CHR 0x92, CHR 0xAC] @ '' '' @ [CHR 0xE8, CHR 0xAF,
     CHR 0x84, CHR 0xE8, CHR 0xAE, CHR 0xBA, CHR 0xE5, CHR 0x88, CHR 0x97, CHR 0xE8,
     CHR 0xA1, CHR 0xA8, CHR 0x0A]"

text \<open>\<open>md_rule\<close>: line 334.\<close>

definition md_rule :: string where
  "md_rule =
     ''---'' @ [CHR 0x0A, CHR 0x0A]"

text \<open>\<open>md_loaded\<close>: line 335, before the page number.\<close>

definition md_loaded :: string where
  "md_loaded =
     [CHR 0xE2, CHR 0x9C, CHR 0x85] @ '' **'' @ [CHR 0xE6, CHR 0x88, CHR 0x90, CHR 0xE5,
     CHR 0x8A, CHR 0x9F, CHR 0xE5, CHR 0x8A, CHR 0xA0, CHR 0xE8, CHR 0xBD, CHR 0xBD,
     CHR 0xE7, CHR 0xAC, CHR 0xAC] @ '' ''"

text \<open>\<open>md_loaded_end\<close>: line 335, after it.\<close>

definition md_loaded_end :: string where
  "md_loaded_end =
     '' '' @ [CHR 0xE9, CHR 0xA1, CHR 0xB5, CHR 0xE7, CHR 0x9A, CHR 0x84, CHR 0xE8,
     CHR 0xAF, CHR 0x84, CHR 0xE8, CHR 0xAE, CHR 0xBA, CHR 0xE3, CHR 0x80, CHR 0x82] @
     ''**'' @ [CHR 0x0A]"

text \<open>\<open>md_next\<close>: line 337, first part.\<close>

definition md_next :: string where
  "md_next =
     [CHR 0xF0, CHR 0x9F, CHR 0x92, CHR 0xA1] @ '' '' @ [CHR 0xE5, CHR 0xA6, CHR 0x82,
     CHR 0xE9, CHR 0x9C, CHR 0x80, CHR 0xE6, CHR 0xB5, CHR 0x8F, CHR 0xE8, CHR 0xA7,
     CHR 0x88, CHR 0xE4, CHR 0xB8, CHR 0x8B, CHR 0xE4, CHR 0xB8, CHR 0x80, CHR 0xE9,
     CHR 0xA1, CHR 0xB5] @ '' ('' @ [CHR 0xE7, CHR 0xAC, CHR 0xAC] @ '' ''"

text \<open>\<open>md_next_mid\<close>: line 337, second part.\<close>

definition md_next_mid :: string where
  "md_next_mid =
     '' '' @ [CHR 0xE9, CHR 0xA1, CHR 0xB5] @ ''), '' @ [CHR 0xE8, CHR 0xAF, CHR 0xB7,
     CHR 0xE5, CHR 0x9C, CHR 0xA8, CHR 0xE4, CHR 0xB8, CHR 0x8B, CHR 0xE6, CHR 0xAC,
     CHR 0xA1, CHR 0xE8, CHR 0xAF, CHR 0xB7, CHR 0xE6, CHR 0xB1, CHR 0x82, CHR 0xE6,
     CHR 0x97, CHR 0xB6, CHR 0xE6, CHR 0x8C, CHR 0x87, CHR 0xE5, CHR 0xAE, CHR 0x9A] @
     '' '' @ [CHR 0x60] @ ''page: ''"

text \<open>\<open>md_next_end\<close>: line 337, last part.\<close>

definition md_next_end :: string where
  "md_next_end =
     [CHR 0x60, CHR 0xE3, CHR 0x80, CHR 0x82]"

text \<open>\<open>md_last\<close>: line 339.\<close>

definition md_last :: string where
  "md_last =
     [CHR 0xF0, CHR 0x9F, CHR 0x8F, CHR 0x81] @ '' '' @ [CHR 0xE5, CHR 0xB7, CHR 0xB2,
     CHR 0xE5, CHR 0x88, CHR 0xB0, CHR 0xE8, CHR 0xBE, CHR 0xBE, CHR 0xE6, CHR 0x9C,
     CHR 0x80, CHR 0xE5, CHR 0x90, CHR 0x8E, CHR 0xE4, CHR 0xB8, CHR 0x80, CHR 0xE9,
     CHR 0xA1, CHR 0xB5, CHR 0xE3, CHR 0x80, CHR 0x82]"

text \<open>\<open>md_user\<close>: line 279, before the user name.\<close>

definition md_user :: string where
  "md_user =
     ''**'' @ [CHR 0xF0, CHR 0x9F, CHR 0x91, CHR 0xA4] @ '' ''"

text \<open>\<open>md_level\<close>: line 279, before the level.\<close>

definition md_level :: string where
  "md_level =
     ''** (Lv.''"

text \<open>\<open>md_like\<close>: line 279, before the likes.\<close>

definition md_like :: string where
  "md_like =
     '') | '' @ [CHR 0xF0, CHR 0x9F, CHR 0x91, CHR 0x8D] @ '' ''"

text \<open>\<open>md_time\<close>: line 279, before the time.\<close>

definition md_time :: string where
  "md_time =
     '' | '' @ [CHR 0xF0, CHR 0x9F, CHR 0x95, CHR 0x90] @ '' ''"

text \<open>\<open>md_replies_failed\<close>: line 355.\<close>

definition md_replies_failed :: string where
  "md_replies_failed =
     ''  '' @ [CHR 0xE2, CHR 0x86, CHR 0xB3] @ '' '' @ [CHR 0xE2, CHR 0x9A, CHR 0xA0,
     CHR 0xEF, CHR 0xB8, CHR 0x8F] @ '' *'' @ [CHR 0xE6, CHR 0xAD, CHR 0xA4, CHR 0xE8,
     CHR 0xAF, CHR 0x84, CHR 0xE8, CHR 0xAE, CHR 0xBA, CHR 0xE7, CHR 0x9A, CHR 0x84,
     CHR 0xE6, CHR 0xA5, CHR 0xBC, CHR 0xE4, CHR 0xB8, CHR 0xAD, CHR 0xE6, CHR 0xA5,
     CHR 0xBC, CHR 0xE5, CHR 0x9B, CHR 0x9E, CHR 0xE5, CHR 0xA4, CHR 0x8D, CHR 0xE5,
     CHR 0x8A, CHR 0xA0, CHR 0xE8, CHR 0xBD, CHR 0xBD, CHR 0xE5, CHR 0xA4, CHR 0xB1,
     CHR 0xE8, CHR 0xB4, CHR 0xA5, CHR 0xEF, CHR 0xBC, CHR 0x8C, CHR 0xE8, CHR 0xAF,
     CHR 0xB7, CHR 0xE7, CHR 0xA8, CHR 0x8D, CHR 0xE5, CHR 0x90, CHR 0x8E, CHR 0xE9,
     CHR 0x87, CHR 0x8D, CHR 0xE8, CHR 0xAF, CHR 0x95, CHR 0xE3, CHR 0x80, CHR 0x82] @
     ''*'' @ [CHR 0x0A]"

text \<open>\<open>md_replies_head\<close>: line 357, first part.\<close>

definition md_replies_head :: string where
  "md_replies_head =
     [CHR 0x0A] @ ''**'' @ [CHR 0xF0, CHR 0x9F, CHR 0x93, CHR 0x9D] @ '' '' @ [CHR 0xE6,
     CHR 0xA5, CHR 0xBC, CHR 0xE4, CHR 0xB8, CHR 0xAD, CHR 0xE6, CHR 0xA5, CHR 0xBC,
     CHR 0xE5, CHR 0x9B, CHR 0x9E, CHR 0xE5, CHR 0xA4, CHR 0x8D] @ ''** ('' @ [CHR 0xE5,
     CHR 0x85, CHR 0xB1] @ '' ''"

text \<open>\<open>md_replies_shown\<close>: line 357, second part.\<close>

definition md_replies_shown :: string where
  "md_replies_shown =
     '' '' @ [CHR 0xE6, CHR 0x9D, CHR 0xA1, CHR 0xEF, CHR 0xBC, CHR 0x8C, CHR 0xE6,
     CHR 0x98, CHR 0xBE, CHR 0xE7, CHR 0xA4, CHR 0xBA, CHR 0xE5, CHR 0x89, CHR 0x8D] @ '' ''"

text \<open>\<open>md_replies_head_end\<close>: line 357, last part.\<close>

definition md_replies_head_end :: string where
  "md_replies_head_end =
     '' '' @ [CHR 0xE6, CHR 0x9D, CHR 0xA1] @ ''):'' @ [CHR 0x0A]"

text \<open>\<open>md_reply\<close>: line 360, before the user name.\<close>

definition md_reply :: string where
  "md_reply =
     ''  '' @ [CHR 0xE2, CHR 0x86, CHR 0xB3] @ '' **''"

text \<open>\<open>md_reply_like\<close>: line 360, before the likes.\<close>

definition md_reply_like :: string where
  "md_reply_like =
     '' *('' @ [CHR 0xF0, CHR 0x9F, CHR 0x91, CHR 0x8D]"

text \<open>\<open>md_more\<close>: line 363, before the number.\<close>

definition md_more :: string where
  "md_more =
     ''  '' @ [CHR 0xE2, CHR 0x86, CHR 0xB3] @ '' *...'' @ [CHR 0xE8, CHR 0xBF, CHR 0x98,
     CHR 0xE6, CHR 0x9C, CHR 0x89] @ '' ''"

text \<open>\<open>md_more_end\<close>: line 363, after it.\<close>

definition md_more_end :: string where
  "md_more_end =
     '' '' @ [CHR 0xE6, CHR 0x9D, CHR 0xA1, CHR 0xE5, CHR 0x9B, CHR 0x9E, CHR 0xE5,
     CHR 0xA4, CHR 0x8D] @ ''*'' @ [CHR 0x0A]"

text \<open>\<open>md_comment_end\<close>: line 367.\<close>

definition md_comment_end :: string where
  "md_comment_end =
     [CHR 0x0A] @ ''---'' @ [CHR 0x0A, CHR 0x0A]"

text \<open>A number in a template literal: the decimal digits of an integer, \<open>-\<close> first if negative.\<close>

definition digit_char :: "nat \<Rightarrow> char" where
  "digit_char d = ''0123456789'' ! (d mod 10)"

function string_of_nat :: "nat \<Rightarrow> string" where
  "string_of_nat n =
     (if n < 10 then [digit_char n] else string_of_nat (n div 10) @ [digit_char (n mod 10)])"
  by pat_completeness auto

termination
  by (relation "measure id") auto

declare string_of_nat.simps [simp del]

definition toString :: "int \<Rightarrow> string" where
  "toString i = (if i < 0 then ''-'' @ string_of_nat (nat (- i)) else string_of_nat (nat i))"

text \<open>\<open>String.prototype.includes\<close>.\<close>

fun includes' :: "string \<Rightarrow> string \<Rightarrow> bool" where
  "includes' [] needle = (needle = [])"
| "includes' (c # cs) needle = (needle = take (length needle) (c # cs) \<or> includes' cs needle)"

text \<open>\<open>message.replace(/\n/g, '\n> ')\<close> of line 280.\<close>

definition quote_lines :: "string \<Rightarrow> string" where
  "quote_lines s = concat (map (\<lambda>c. if c = CHR 0x0A then CHR 0x0A # ''> '' else [c]) s)"

subsection \<open>Data of the remote API and of the tool\<close>

text \<open>
  An error object has a message and, when axios made it, a code. \<open>new Error(m)\<close> has no
  code.
\<close>

record js_error =
  code :: "string option"
  message :: string

definition Error :: "string \<Rightarrow> js_error" where
  "Error m = \<lparr>code = None, message = m\<rparr>"

text \<open>
  The arguments object, typed as the tool's \<open>inputSchema\<close> declares its properties; a
  property that is absent is \<open>None\<close>. Numbers are integers (page numbers and counts).
\<close>

record args =
  bvid :: "string option"
  aid :: "string option"
  page :: "int option"
  pageSize :: "int option"
  sort' :: "int option"
  includeReplies :: "bool option"
  cookie :: "string option"

text \<open>A query parameter is a number or a string (\<open>oid\<close> is the string \<open>aid\<close> of the
  arguments or the number \<open>aid\<close> of the video information).\<close>

datatype qval = QNum int | QStr string

text \<open>
  A request as \<open>axiosInstance.get(url, config)\<close> receives it: the endpoint, the
  \<open>params\<close>, the two headers the calls set, and the timeout in milliseconds (15000 from the
  instance unless the call sets its own).
\<close>

record request =
  url :: string
  params :: "(string \<times> qval) list"
  Cookie :: string
  Referer :: string
  timeout :: nat

text \<open>
  The JSON of the three endpoints, as far as the source reads it. A property name that
  several of these objects share (\<open>code\<close>, \<open>message\<close>, \<open>data\<close>, \<open>replies\<close>, \<open>page\<close>,
  \<open>content\<close>) carries the name of its object here, and a name that is taken in
  Isabelle/HOL carries a prime.
\<close>

record video_data =
  aid_num :: int
  title :: string

record view_body =
  view_code :: int
  view_message :: string
  view_data :: video_data

record level_info =
  current_level :: int

record member_info =
  uname :: string
  level_info :: "level_info option"

record content_info =
  message_text :: string

record comment =
  rpid :: int
  rcount :: int
  ctime :: int
  like :: int
  member' :: member_info
  content :: content_info

record page_info =
  num :: int
  count :: int
  size' :: int

record page_data =
  page_of :: "page_info option"
  hots :: "comment list option"
  replies :: "comment list option"

record reply_body =
  reply_code :: int
  reply_message :: string
  reply_data :: page_data

record replies_data =
  nested_replies :: "comment list option"

record replies_body =
  replies_code :: int
  replies_data :: "replies_data option"

text \<open>
  What the program does not decide: the environment variable, the remote service behind
  each endpoint (a response or the error axios throws), the two date formats of
  \<open>toLocaleString\<close> (lines 276 and 359; they depend on the host's time zone), and the
  order in which the responses of the requests in flight arrive (\<open>arrival\<close> picks one of
  the promise numbers in flight by its position).
\<close>

record env =
  BILIBILI_COOKIE :: "string option"
  view :: "request \<Rightarrow> js_error + view_body"
  reply :: "request \<Rightarrow> js_error + reply_body"
  replyReply :: "request \<Rightarrow> js_error + replies_body"
  localeLong :: "int \<Rightarrow> string"
  localeShort :: "int \<Rightarrow> string"
  arrival :: "nat list \<Rightarrow> nat"

text \<open>The MCP result.\<close>

record text_item =
  type' :: string
  text' :: string

record tool_result =
  content_items :: "text_item list"

subsection \<open>\<open>BilibiliAPI\<close>\<close>

text \<open>
  Every function that sends requests returns the requests it sent, in order, with its
  result; a thrown error is \<open>Inl\<close>.
\<close>

definition orDefault :: "string \<Rightarrow> string \<Rightarrow> string" where
  \<comment> \<open>\<open>s || d\<close> for strings: the empty string is falsy\<close>
  "orDefault s d = (if s = [] then d else s)"

definition getVideoInfo :: "env \<Rightarrow> string \<Rightarrow> string \<Rightarrow> request list \<times> (js_error + video_data)" where
  "getVideoInfo e bvid_v cookie_v =
     (let req = \<lparr>url = url_view, params = [(''bvid'', QStr bvid_v)], Cookie = cookie_v,
                  Referer = video_url @ bvid_v, timeout = 15000\<rparr>;
          attempt =
            (case view e req of
               Inl err \<Rightarrow> Inl err
             | Inr body \<Rightarrow>
                 if view_code body \<noteq> 0
                 then Inl (Error (msg_video_info_failed @ '' ('' @ toString (view_code body)
                            @ ''): '' @ view_message body))
                 else Inr (view_data body))
      in ([req],
          case attempt of
            Inl err \<Rightarrow>
              Inl (Error (msg_video_info_failed @ '': ''
                     @ orDefault (js_error.message err) msg_unknown_network))
          | Inr d \<Rightarrow> Inr d))"

definition fetchComments ::
  "env \<Rightarrow> qval \<Rightarrow> int \<Rightarrow> int \<Rightarrow> int \<Rightarrow> string \<Rightarrow> string \<Rightarrow> request list \<times> (js_error + reply_body)" where
  "fetchComments e oid page_v pageSize_v sort_v cookie_v videoId =
     (let req = \<lparr>url = url_reply,
                  params = [(''type'', QNum 1), (''oid'', oid), (''pn'', QNum page_v),
                            (''ps'', QNum (min pageSize_v 49)), (''sort'', QNum sort_v)],
                  Cookie = cookie_v, Referer = video_url @ videoId, timeout = 15000\<rparr>
      in ([req],
          case reply e req of
            Inr response \<Rightarrow> Inr response
          | Inl err \<Rightarrow>
              if js_error.code err = Some ''ECONNABORTED'' then Inl (Error msg_timeout)
              else Inl (Error (msg_comments_failed
                     @ orDefault (js_error.message err) msg_unknown_network))))"

text \<open>
  \<open>fetchReplies\<close> returns the array of replies or the marker \<open>'fetch_failed'\<close>; it
  catches every error, so its promise never rejects (the \<open>console.error\<close> of line 149
  writes a log line and is left out). The closure that
  \<open>generateMarkdownResponse\<close> hands to the pool, \<open>() => fetchReplies(oid, comment.rpid,
  cookie, videoId)\<close>, is the record of what it captures.
\<close>

datatype replies_result = Replies "comment list" | fetch_failed

record replies_call =
  call_oid :: qval
  parentRpid :: int
  call_cookie :: string
  call_videoId :: string

definition repliesRequest :: "replies_call \<Rightarrow> request" where
  "repliesRequest c =
     \<lparr>url = url_replyReply,
      params = [(''type'', QNum 1), (''oid'', call_oid c), (''root'', QNum (parentRpid c)),
                (''ps'', QNum 10)],
      Cookie = call_cookie c, Referer = video_url @ call_videoId c, timeout = 8000\<rparr>"

definition fetchReplies :: "env \<Rightarrow> replies_call \<Rightarrow> replies_result" where
  "fetchReplies e c =
     (case replyReply e (repliesRequest c) of
        Inl err \<Rightarrow> fetch_failed
      | Inr body \<Rightarrow>
          (case (if replies_code body = 0 then replies_data body else None) of
             Some d \<Rightarrow> (case nested_replies d of Some rs \<Rightarrow> Replies rs | None \<Rightarrow> Replies [])
           | None \<Rightarrow> Replies []))"

subsection \<open>Rendering\<close>

definition formatSingleCommentContent :: "env \<Rightarrow> comment \<Rightarrow> string" where
  "formatSingleCommentContent e c =
     (let timeStr = localeLong e (ctime c * 1000);
          userLevel = (case level_info (member' c) of
                         None \<Rightarrow> 0
                       | Some li \<Rightarrow> current_level li);
          md = md_user @ uname (member' c) @ md_level @ toString userLevel @ md_like
               @ toString (like c) @ md_time @ timeStr @ [CHR 0x0A]
      in md @ ''> '' @ quote_lines (message_text (content c)) @ [CHR 0x0A])"

definition formatReply :: "env \<Rightarrow> comment \<Rightarrow> string" where
  \<comment> \<open>the body of the \<open>forEach\<close> of lines 358 to 361\<close>
  "formatReply e r =
     (let replyTime = localeShort e (ctime r * 1000)
      in md_reply @ uname (member' r) @ ''**: '' @ message_text (content r) @ md_reply_like
         @ toString (like r) @ '' | '' @ replyTime @ '')*'' @ [CHR 0x0A])"

definition formatCommentWithReplies :: "env \<Rightarrow> comment \<Rightarrow> replies_result \<Rightarrow> string" where
  "formatCommentWithReplies e c rs =
     (let md = formatSingleCommentContent e c;
          md1 = (case rs of
                   fetch_failed \<Rightarrow> md @ md_replies_failed
                 | Replies xs \<Rightarrow>
                     if length xs > 0
                     then (let md2 = md @ md_replies_head @ toString (rcount c) @ md_replies_shown
                                     @ toString (int (length xs)) @ md_replies_head_end;
                               md3 = md2 @ concat (map (formatReply e) xs)
                           in if rcount c > int (length xs)
                              then md3 @ md_more @ toString (rcount c - int (length xs))
                                   @ md_more_end
                              else md3)
                     else md)
      in md1 @ md_comment_end)"

subsection \<open>\<open>generateMarkdownResponse\<close>: the fan-out through the pool\<close>

text \<open>
  An element of \<open>replyTasks\<close> is a promise returned by the pool's scheduling function
  (\<open>FromPool\<close>, with its number) or \<open>Promise.resolve([])\<close> (\<open>Already\<close>, with its value).
\<close>

datatype reply_promise = FromPool nat | Already replies_result

type_synonym reply_pool = "(replies_call, replies_result, js_error) pool"

text \<open>
  The callback of \<open>allComments.map\<close> on line 314, run over the comments in order; each
  call of \<open>limit\<close> changes the pool.
\<close>

definition repliesCall :: "qval \<Rightarrow> string \<Rightarrow> string \<Rightarrow> comment \<Rightarrow> replies_call" where
  "repliesCall oid cookie_v videoId c =
     \<lparr>call_oid = oid, parentRpid = rpid c, call_cookie = cookie_v, call_videoId = videoId\<rparr>"

fun submitReplyTasks ::
  "qval \<Rightarrow> string \<Rightarrow> string \<Rightarrow> comment list \<Rightarrow> reply_pool \<Rightarrow> reply_promise list \<times> reply_pool" where
  "submitReplyTasks oid cookie_v videoId [] s = ([], s)"
| "submitReplyTasks oid cookie_v videoId (c # cs) s =
     (if rcount c > 0
      then (let (p, s1) = schedule (repliesCall oid cookie_v videoId c) s;
                (ps, s2) = submitReplyTasks oid cookie_v videoId cs s1
            in (FromPool p # ps, s2))
      else (let (ps, s2) = submitReplyTasks oid cookie_v videoId cs s
            in (Already (Replies []) # ps, s2)))"

definition replyTasks ::
  "bool \<Rightarrow> qval \<Rightarrow> string \<Rightarrow> string \<Rightarrow> comment list \<Rightarrow> reply_pool \<Rightarrow> reply_promise list \<times> reply_pool" where
  "replyTasks includeReplies_v oid cookie_v videoId allComments limit =
     (if includeReplies_v
      then submitReplyTasks oid cookie_v videoId allComments limit
      else (map (\<lambda>_. Already (Replies [])) allComments, limit))"

text \<open>
  The event loop while \<open>generateMarkdownResponse\<close> awaits: as long as a task is in
  flight, the response of one of the requests in flight arrives (the environment picks
  which), the promise of that task's \<open>fn\<close> resolves with the result of \<open>fetchReplies\<close>, and
  the three handlers of the task run. The first argument bounds the number of rounds;
  \<open>None\<close> means that the bound was too small.
\<close>

fun eventLoop :: "nat \<Rightarrow> env \<Rightarrow> reply_pool \<Rightarrow> reply_pool option" where
  "eventLoop 0 e s = (if inFlight s = [] then Some s else None)"
| "eventLoop (Suc m) e s =
     (if inFlight s = [] then Some s
      else (let fl = inFlight s;
                u = fl ! (arrival e (map promise fl) mod length fl);
                p = promise u;
                s1 = step (FnSettled p (Resolved (fetchReplies e (fn u)))) s;
                s2 = step (RunThenCatch p) s1;
                s3 = step (RunFinally p) s2
            in eventLoop m e s3))"

declare eventLoop.simps [simp del]

text \<open>
  \<open>Promise.all\<close> over promises in the states given: rejected as soon as one is rejected,
  fulfilled with the values in the order of the promises when all are fulfilled, pending
  (\<open>None\<close>) otherwise.
\<close>

definition promiseState :: "reply_pool \<Rightarrow> reply_promise \<Rightarrow> (replies_result, js_error) outcome option" where
  "promiseState s pr = (case pr of Already v \<Rightarrow> Some (Resolved v) | FromPool p \<Rightarrow> promises s p)"

fun firstRejected :: "('v, 'e) outcome option list \<Rightarrow> 'e option" where
  "firstRejected [] = None"
| "firstRejected (Some (Rejected x) # os) = Some x"
| "firstRejected (oc # os) = firstRejected os"

fun allResolved :: "('v, 'e) outcome option list \<Rightarrow> 'v list option" where
  "allResolved [] = Some []"
| "allResolved (Some (Resolved v) # os) =
     (case allResolved os of None \<Rightarrow> None | Some vs \<Rightarrow> Some (v # vs))"
| "allResolved (oc # os) = None"

definition Promise_all :: "('v, 'e) outcome option list \<Rightarrow> ('e + 'v list) option" where
  "Promise_all os =
     (case firstRejected os of
        Some x \<Rightarrow> Some (Inl x)
      | None \<Rightarrow> (case allResolved os of None \<Rightarrow> None | Some vs \<Rightarrow> Some (Inr vs)))"

definition pageHeader :: "page_data \<Rightarrow> int \<times> int \<times> string" where
  \<comment> \<open>lines 294 to 301: the current page, the number of pages, the head of the report\<close>
  "pageHeader pageInfo =
     (let currentPage = (case page_of pageInfo of
                           None \<Rightarrow> 1
                         | Some pg \<Rightarrow> if num pg = 0 then 1 else num pg);
          totalCount = (case page_of pageInfo of None \<Rightarrow> 0 | Some pg \<Rightarrow> count pg);
          pageSize_v = (case page_of pageInfo of
                          None \<Rightarrow> 20
                        | Some pg \<Rightarrow> if size' pg = 0 then 20 else size' pg);
          totalPages = (if pageSize_v > 0 then - ((- totalCount) div pageSize_v) else 1);
          md = md_title @ md_current @ toString currentPage @ '' / '' @ toString totalPages
               @ md_page_unit @ md_total @ toString totalCount @ md_total_unit
      in (currentPage, totalPages, md))"

definition pageFooter :: "int \<Rightarrow> int \<Rightarrow> string" where
  \<comment> \<open>lines 334 to 340\<close>
  "pageFooter currentPage totalPages =
     md_rule @ md_loaded @ toString currentPage @ md_loaded_end
     @ (if currentPage < totalPages
        then md_next @ toString (currentPage + 1) @ md_next_mid @ toString (currentPage + 1)
             @ md_next_end
        else md_last)"

definition allCommentsOf :: "page_data \<Rightarrow> comment list" where
  \<comment> \<open>line 303\<close>
  "allCommentsOf pageInfo =
     (case hots pageInfo of None \<Rightarrow> [] | Some hs \<Rightarrow> hs)
     @ (case replies pageInfo of None \<Rightarrow> [] | Some rs \<Rightarrow> rs)"

definition commentWithReplies :: "comment list \<Rightarrow> replies_result list \<Rightarrow> (comment \<times> replies_result) list" where
  \<comment> \<open>lines 324 to 327: \<open>allReplies[index] || []\<close>\<close>
  "commentWithReplies allComments allReplies =
     map (\<lambda>(index, c). (c, if index < length allReplies then allReplies ! index else Replies []))
       (zip [0..<length allComments] allComments)"

definition renderComments :: "env \<Rightarrow> page_data \<Rightarrow> replies_result list \<Rightarrow> string" where
  \<comment> \<open>lines 324 to 342: what follows \<open>await Promise.all(replyTasks)\<close>\<close>
  "renderComments e pageInfo allReplies =
     (let (currentPage, totalPages, md) = pageHeader pageInfo
      in md @ md_list
         @ concat (map (\<lambda>(c, rs). formatCommentWithReplies e c rs)
             (commentWithReplies (allCommentsOf pageInfo) allReplies))
         @ pageFooter currentPage totalPages)"

definition generateMarkdownResponse ::
  "env \<Rightarrow> page_data \<Rightarrow> bool \<Rightarrow> string \<Rightarrow> string \<Rightarrow> qval \<Rightarrow> (request list \<times> (js_error + string)) option" where
  "generateMarkdownResponse e pageInfo includeReplies_v cookie_v videoId oid =
     (let (currentPage, totalPages, md) = pageHeader pageInfo;
          allComments = allCommentsOf pageInfo
      in if length allComments = 0
         then Some ([], Inr (md @ md_no_comments @ md_done_empty))
         else (let limit = simplePool 5;
                   (tasks, s) = replyTasks includeReplies_v oid cookie_v videoId allComments limit
               in case eventLoop (created s) e s of
                    None \<Rightarrow> None
                  | Some s' \<Rightarrow>
                      (case Promise_all (map (promiseState s') tasks) of
                         None \<Rightarrow> None
                       | Some joined \<Rightarrow>
                           Some (map (\<lambda>t. repliesRequest (fn t)) (started s'),
                             case joined of
                               Inl err \<Rightarrow> Inl err
                             | Inr allReplies \<Rightarrow> Inr (renderComments e pageInfo allReplies)))))"

subsection \<open>\<open>BilibiliMCPServer\<close>\<close>

definition validateCookie :: "string option \<Rightarrow> bool" where
  "validateCookie c = (case c of None \<Rightarrow> False | Some s \<Rightarrow> s \<noteq> [] \<and> includes' s ''SESSDATA'')"

definition truthy :: "string option \<Rightarrow> bool" where
  "truthy v = (case v of None \<Rightarrow> False | Some s \<Rightarrow> s \<noteq> [])"

definition effectiveCookie :: "env \<Rightarrow> args \<Rightarrow> string option" where
  \<comment> \<open>line 226: \<open>args.cookie || process.env.BILIBILI_COOKIE\<close>\<close>
  "effectiveCookie e a = (if truthy (cookie a) then cookie a else BILIBILI_COOKIE e)"

definition apiErrorMessage :: "int \<Rightarrow> string \<Rightarrow> string" where
  \<comment> \<open>lines 247 to 251\<close>
  "apiErrorMessage c m =
     (let errorMsg = (if c = - 101 then msg_not_logged_in
                      else if c = - 403 then msg_forbidden
                      else if c = - 404 then msg_not_found
                      else m)
      in msg_api_error @ toString c @ ''): '' @ errorMsg)"

text \<open>
  The \<open>try\<close> block of \<open>getVideoComments\<close>, in the order of its statements. First the
  defaults and the four checks of lines 225 to 233; the result is the error thrown or the
  values the rest uses.
\<close>

record checked_args =
  cookie_c :: string
  page_c :: int
  pageSize_c :: int
  sort_c :: int
  includeReplies_c :: bool

definition checkArgs :: "env \<Rightarrow> args \<Rightarrow> js_error + checked_args" where
  "checkArgs e a =
     (let page_v = (case page a of None \<Rightarrow> 1 | Some v \<Rightarrow> v);
          pageSize_v = (case pageSize a of None \<Rightarrow> 20 | Some v \<Rightarrow> v);
          sort_v = (case sort' a of None \<Rightarrow> 0 | Some v \<Rightarrow> v);
          includeReplies_v = (case includeReplies a of None \<Rightarrow> True | Some v \<Rightarrow> v);
          cookie_o = effectiveCookie e a
      in if \<not> validateCookie cookie_o then Inl (Error msg_cookie)
         else if \<not> truthy (bvid a) \<and> \<not> truthy (aid a) then Inl (Error msg_no_id)
         else if pageSize_v < 1 \<or> pageSize_v > 49 then Inl (Error msg_pageSize)
         else if \<not> (sort_v = 0 \<or> sort_v = 1) then Inl (Error msg_sort)
         else Inr \<lparr>cookie_c = (case cookie_o of Some c \<Rightarrow> c | None \<Rightarrow> []),
                    page_c = page_v, pageSize_c = pageSize_v, sort_c = sort_v,
                    includeReplies_c = includeReplies_v\<rparr>)"

text \<open>Line 236: \<open>bvid || `av${aid}`\<close>.\<close>

definition videoIdForRef :: "args \<Rightarrow> string" where
  "videoIdForRef a =
     (if truthy (bvid a) then (case bvid a of Some b \<Rightarrow> b | None \<Rightarrow> [])
      else ''av'' @ (case aid a of Some x \<Rightarrow> x | None \<Rightarrow> ''undefined''))"

text \<open>Lines 237 to 242: \<open>oid\<close> is \<open>aid\<close>, or the \<open>aid\<close> of the video information when only
  \<open>bvid\<close> is given.\<close>

definition resolveOid :: "env \<Rightarrow> args \<Rightarrow> string \<Rightarrow> request list \<times> (js_error + qval)" where
  "resolveOid e a cookie_v =
     (if truthy (bvid a) \<and> \<not> truthy (aid a)
      then (case getVideoInfo e (case bvid a of Some b \<Rightarrow> b | None \<Rightarrow> []) cookie_v of
              (reqs, Inl err) \<Rightarrow> (reqs, Inl err)
            | (reqs, Inr videoInfo) \<Rightarrow> (reqs, Inr (QNum (aid_num videoInfo))))
      else ([], Inr (QStr (case aid a of Some x \<Rightarrow> x | None \<Rightarrow> []))))"

text \<open>Lines 246 to 252.\<close>

definition checkResponse :: "reply_body \<Rightarrow> js_error + page_data" where
  "checkResponse response =
     (if reply_code response \<noteq> 0
      then Inl (Error (apiErrorMessage (reply_code response) (reply_message response)))
      else Inr (reply_data response))"

text \<open>The whole block: the requests sent, and the report or the error thrown; \<open>None\<close> if
  the block never finishes.\<close>

definition tryGetVideoComments :: "env \<Rightarrow> args \<Rightarrow> (request list \<times> (js_error + string)) option" where
  "tryGetVideoComments e a =
     (case checkArgs e a of
        Inl err \<Rightarrow> Some ([], Inl err)
      | Inr v \<Rightarrow>
          (case resolveOid e a (cookie_c v) of
             (reqs1, Inl err) \<Rightarrow> Some (reqs1, Inl err)
           | (reqs1, Inr oid) \<Rightarrow>
               (case fetchComments e oid (page_c v) (pageSize_c v) (sort_c v) (cookie_c v)
                       (videoIdForRef a) of
                  (reqs2, Inl err) \<Rightarrow> Some (reqs1 @ reqs2, Inl err)
                | (reqs2, Inr response) \<Rightarrow>
                    (case checkResponse response of
                       Inl err \<Rightarrow> Some (reqs1 @ reqs2, Inl err)
                     | Inr pageInfo \<Rightarrow>
                         (case generateMarkdownResponse e pageInfo (includeReplies_c v)
                                 (cookie_c v) (videoIdForRef a) oid of
                            None \<Rightarrow> None
                          | Some (reqs3, r) \<Rightarrow> Some (reqs1 @ reqs2 @ reqs3, r))))))"

text \<open>\<open>getVideoComments\<close>: the \<open>try\<close> block and its \<open>catch\<close>.\<close>

definition textResult :: "string \<Rightarrow> tool_result" where
  "textResult t = \<lparr>content_items = [\<lparr>type' = ''text'', text' = t\<rparr>]\<rparr>"

definition getVideoComments :: "env \<Rightarrow> args \<Rightarrow> (request list \<times> tool_result) option" where
  "getVideoComments e a =
     (case tryGetVideoComments e a of
        None \<Rightarrow> None
      | Some (reqs, Inr markdownResponse) \<Rightarrow> Some (reqs, textResult markdownResponse)
      | Some (reqs, Inl err) \<Rightarrow>
          Some (reqs, textResult (failure_prefix @ js_error.message err)))"

subsection \<open>Predicates and expected values used in the proofs about the tool\<close>

text \<open>
  \<open>pool_ok\<close> collects the invariants of the pool. \<open>answers_ok\<close>: the promise of the \<open>fn\<close>
  of a started task, once settled, holds the result of that task's \<open>fetchReplies\<close> call.
  \<open>finishTask\<close> is one round of \<open>eventLoop\<close> for the task picked.
\<close>

definition pool_ok :: "('f, 'v, 'e) pool \<Rightarrow> bool" where
  "pool_ok s \<longleftrightarrow> slots_ok s \<and> order_ok s \<and> outcome_ok s \<and> count_ok s"

definition answers_ok :: "env \<Rightarrow> reply_pool \<Rightarrow> bool" where
  "answers_ok e s \<longleftrightarrow>
     (\<forall>t oc. t \<in> set (started s) \<and> fnPromise s (promise t) = Some oc \<longrightarrow>
        oc = Resolved (fetchReplies e (fn t)))"

definition finishTask :: "env \<Rightarrow> replies_call task \<Rightarrow> reply_pool \<Rightarrow> reply_pool" where
  "finishTask e u s =
     step (RunFinally (promise u)) (step (RunThenCatch (promise u))
       (step (FnSettled (promise u) (Resolved (fetchReplies e (fn u)))) s))"

text \<open>
  What the fan-out is expected to do with a list of comments: \<open>repliesCalls\<close> are the
  closures handed to the pool, one per comment with \<open>rcount > 0\<close>, in order;
  \<open>repliesFor\<close> is the entry of \<open>allReplies\<close> that belongs to a comment; \<open>promiseRefs k\<close>
  are the elements of \<open>replyTasks\<close> when the pool has returned \<open>k\<close> promises so far.
\<close>

definition repliesCalls :: "qval \<Rightarrow> string \<Rightarrow> string \<Rightarrow> comment list \<Rightarrow> replies_call list" where
  "repliesCalls oid cookie_v videoId cs =
     map (repliesCall oid cookie_v videoId) (filter (\<lambda>c. rcount c > 0) cs)"

definition repliesFor :: "env \<Rightarrow> bool \<Rightarrow> qval \<Rightarrow> string \<Rightarrow> string \<Rightarrow> comment \<Rightarrow> replies_result" where
  "repliesFor e includeReplies_v oid cookie_v videoId c =
     (if includeReplies_v \<and> rcount c > 0 then fetchReplies e (repliesCall oid cookie_v videoId c)
      else Replies [])"

fun promiseRefs :: "nat \<Rightarrow> comment list \<Rightarrow> reply_promise list" where
  "promiseRefs k [] = []"
| "promiseRefs k (c # cs) =
     (if rcount c > 0 then FromPool k # promiseRefs (Suc k) cs
      else Already (Replies []) # promiseRefs k cs)"

subsection \<open>Example inputs\<close>

text \<open>
  A comment with three nested replies and one with none, a page holding both, an
  environment in which every request fails with a network error (\<open>offline_env\<close>), one in
  which the comments request succeeds and every request for nested replies fails
  (\<open>flaky_env\<close>), one in which the comments request is answered with the API code -101
  (\<open>expired_env\<close>), and an arguments object that names the video by its \<open>aid\<close> and carries
  a cookie.
\<close>

definition example_comment :: comment where
  "example_comment =
     \<lparr>rpid = 101, rcount = 3, ctime = 1700000000, like = 7,
      member' = \<lparr>uname = ''ann'', level_info = Some \<lparr>current_level = 4\<rparr>\<rparr>,
      content = \<lparr>message_text = ''first''\<rparr>\<rparr>"

definition example_plain :: comment where
  "example_plain =
     \<lparr>rpid = 102, rcount = 0, ctime = 1700000060, like = 0,
      member' = \<lparr>uname = ''bob'', level_info = None\<rparr>,
      content = \<lparr>message_text = ''second''\<rparr>\<rparr>"

definition example_page :: page_data where
  "example_page =
     \<lparr>page_of = Some \<lparr>num = 1, count = 2, size' = 20\<rparr>, hots = None,
      replies = Some [example_comment, example_plain]\<rparr>"

definition offline_env :: env where
  "offline_env =
     \<lparr>BILIBILI_COOKIE = None,
      view = (\<lambda>rq. Inl \<lparr>code = None, message = ''socket hang up''\<rparr>),
      reply = (\<lambda>rq. Inl \<lparr>code = None, message = ''socket hang up''\<rparr>),
      replyReply = (\<lambda>rq. Inl \<lparr>code = None, message = ''socket hang up''\<rparr>),
      localeLong = (\<lambda>t. ''long''), localeShort = (\<lambda>t. ''short''),
      arrival = (\<lambda>ps. 0)\<rparr>"




section \<open>Invariants of the pool\<close>

lemma exec_Nil [simp]: "exec [] s = s"
  by (simp add: exec_def)

lemma exec_snoc [simp]: "exec (es @ [e]) s = step e (exec es s)"
  by (simp add: exec_def)

lemma exec_append: "exec (es @ es') s = exec es' (exec es s)"
  by (simp add: exec_def)

lemma exec_Cons: "exec (e # es) s = exec es (step e s)"
  by (simp add: exec_def)

lemma concurrency_processQueue [simp]: "concurrency (processQueue s) = concurrency s"
  by (simp add: processQueue_def runTask_def split: list.splits)

lemma concurrency_step [simp]: "concurrency (step e s) = concurrency s"
  by (cases e) (simp_all add: schedule_def Let_def onFinally_def settle_def split: option.splits)

lemma concurrency_exec [simp]: "concurrency (exec es s) = concurrency s"
  by (induction es rule: rev_induct) simp_all

lemma slots_ok_init: "slots_ok (simplePool c)"
  by (simp add: slots_ok_def simplePool_def)

lemma slots_ok_step: "slots_ok s \<Longrightarrow> slots_ok (step e s)"
  by (cases e)
     (auto simp: slots_ok_def schedule_def Let_def onFinally_def settle_def processQueue_def
        runTask_def split: option.splits list.splits)

lemma slots_ok_exec: "slots_ok (exec es (simplePool c))"
  by (induction es rule: rev_induct) (simp_all add: slots_ok_init slots_ok_step)

lemma order_ok_init: "order_ok (simplePool c)"
  by (simp add: order_ok_def simplePool_def)

lemma order_ok_processQueue: "order_ok s \<Longrightarrow> order_ok (processQueue s)"
  by (auto simp: order_ok_def processQueue_def runTask_def split: list.splits)

lemma order_ok_step: "order_ok s \<Longrightarrow> order_ok (step e s)"
proof (cases e)
  case (Submit f)
  assume "order_ok s"
  then have "order_ok (s\<lparr>created := Suc (created s),
      queue := queue s @ [\<lparr>fn = f, promise = created s\<rparr>]\<rparr>)"
    by (simp add: order_ok_def)
  then show ?thesis using Submit
    by (simp add: schedule_def Let_def order_ok_processQueue)
next
  case (FnSettled p oc)
  assume "order_ok s"
  then show ?thesis using FnSettled by (auto simp: order_ok_def)
next
  case (RunThenCatch p)
  assume "order_ok s"
  then show ?thesis using RunThenCatch
    by (auto simp: order_ok_def settle_def split: option.splits)
next
  case (RunFinally p)
  assume a: "order_ok s"
  show ?thesis
  proof (cases "stage s p = AwaitFinally")
    case True
    with a have "order_ok (s\<lparr>stage := (stage s)(p := Done), activeCount := activeCount s - 1\<rparr>)"
      by (auto simp: order_ok_def)
    then show ?thesis using RunFinally True
      by (simp add: onFinally_def order_ok_processQueue)
  next
    case False
    then show ?thesis using RunFinally a by simp
  qed
qed

lemma order_ok_exec: "order_ok (exec es (simplePool c))"
  by (induction es rule: rev_induct) (simp_all add: order_ok_init order_ok_step)

lemma outcome_ok_init: "outcome_ok (simplePool c)"
  by (simp add: outcome_ok_def simplePool_def)

lemma processQueue_promises [simp]:
  "promises (processQueue s) = promises s" "fnPromise (processQueue s) = fnPromise s"
  by (auto simp: processQueue_def runTask_def split: list.splits)

lemma queue_head_fresh:
  assumes "order_ok s" "queue s = t # rest"
  shows "stage s (promise t) = NotStarted" "promise t \<notin> promise ` set (started s)"
proof -
  have "distinct (map promise (started s) @ map promise (queue s))"
    using assms(1) by (simp add: order_ok_def)
  then show "promise t \<notin> promise ` set (started s)" using assms(2) by auto
  then show "stage s (promise t) = NotStarted" using assms(1) by (simp add: order_ok_def)
qed

lemma outcome_ok_processQueue:
  assumes "outcome_ok s" "order_ok s" shows "outcome_ok (processQueue s)"
proof (cases "activeCount s < concurrency s \<and> queue s \<noteq> []")
  case False
  then show ?thesis using assms by (auto simp: processQueue_def)
next
  case True
  then obtain t rest where q: "queue s = t # rest" by (cases "queue s") auto
  have pq: "processQueue s = runTask t (s\<lparr>queue := rest\<rparr>)"
    using True q by (simp add: processQueue_def)
  show ?thesis
    using assms(1) queue_head_fresh(1)[OF assms(2) q]
    by (auto simp: outcome_ok_def pq runTask_def)
qed

lemma outcome_ok_step:
  assumes "outcome_ok s" "order_ok s" shows "outcome_ok (step e s)"
proof (cases e)
  case (Submit f)
  let ?s2 = "s\<lparr>created := Suc (created s), queue := queue s @ [\<lparr>fn = f, promise = created s\<rparr>]\<rparr>"
  have "outcome_ok ?s2" using assms(1) by (simp add: outcome_ok_def)
  moreover have "order_ok ?s2" using assms(2) by (simp add: order_ok_def)
  ultimately show ?thesis using Submit
    by (simp add: schedule_def Let_def outcome_ok_processQueue)
next
  case (FnSettled p oc)
  then show ?thesis using assms(1) by (auto simp: outcome_ok_def)
next
  case (RunThenCatch p)
  then show ?thesis using assms(1)
    by (auto simp: outcome_ok_def settle_def split: option.splits)
next
  case (RunFinally p)
  show ?thesis
  proof (cases "stage s p = AwaitFinally")
    case True
    let ?s1 = "s\<lparr>stage := (stage s)(p := Done), activeCount := activeCount s - 1\<rparr>"
    have "outcome_ok ?s1" using assms(1) True by (auto simp: outcome_ok_def)
    moreover have "order_ok ?s1" using assms(2) True by (auto simp: order_ok_def)
    ultimately show ?thesis using RunFinally True
      by (simp add: onFinally_def outcome_ok_processQueue)
  next
    case False
    then show ?thesis using RunFinally assms(1) by simp
  qed
qed

lemma outcome_ok_exec: "outcome_ok (exec es (simplePool c))"
  by (induction es rule: rev_induct)
     (simp_all add: outcome_ok_init outcome_ok_step order_ok_exec)

lemma filter_upd_fresh:
  "a \<notin> f ` set xs \<Longrightarrow> filter (\<lambda>t. (g(a := v)) (f t) \<noteq> d) xs = filter (\<lambda>t. g (f t) \<noteq> d) xs"
  by (rule filter_cong) auto

lemma filter_upd_done:
  "distinct (map f xs) \<Longrightarrow> a \<in> f ` set xs \<Longrightarrow> g a \<noteq> d \<Longrightarrow>
   Suc (length (filter (\<lambda>t. (g(a := d)) (f t) \<noteq> d) xs)) = length (filter (\<lambda>t. g (f t) \<noteq> d) xs)"
proof (induction xs)
  case Nil
  then show ?case by simp
next
  case (Cons x xs)
  show ?case
  proof (cases "f x = a")
    case True
    then have "a \<notin> f ` set xs" using Cons.prems(1) by auto
    then have "filter (\<lambda>t. (g(a := d)) (f t) \<noteq> d) xs = filter (\<lambda>t. g (f t) \<noteq> d) xs"
      by (rule filter_upd_fresh)
    then show ?thesis using True Cons.prems(3) by simp
  next
    case False
    then show ?thesis using Cons by auto
  qed
qed

lemma count_ok_processQueue:
  assumes "count_ok s" "order_ok s" shows "count_ok (processQueue s)"
proof (cases "activeCount s < concurrency s \<and> queue s \<noteq> []")
  case False
  then show ?thesis using assms(1) by (auto simp: processQueue_def)
next
  case True
  then obtain t rest where q: "queue s = t # rest" by (cases "queue s") auto
  have pq: "processQueue s = runTask t (s\<lparr>queue := rest\<rparr>)"
    using True q by (simp add: processQueue_def)
  have "filter (\<lambda>u. ((stage s)(promise t := AwaitThen)) (promise u) \<noteq> Done) (started s)
      = filter (\<lambda>u. stage s (promise u) \<noteq> Done) (started s)"
    using queue_head_fresh(2)[OF assms(2) q] by (rule filter_upd_fresh)
  then have "inFlight (processQueue s) = inFlight s @ [t]"
    by (simp add: pq runTask_def inFlight_def)
  then show ?thesis using assms(1) by (simp add: count_ok_def pq runTask_def)
qed

lemma count_ok_step:
  assumes "count_ok s" "order_ok s" shows "count_ok (step e s)"
proof (cases e)
  case (Submit f)
  let ?s2 = "s\<lparr>created := Suc (created s), queue := queue s @ [\<lparr>fn = f, promise = created s\<rparr>]\<rparr>"
  have "count_ok ?s2" using assms(1) by (simp add: count_ok_def inFlight_def)
  moreover have "order_ok ?s2" using assms(2) by (simp add: order_ok_def)
  ultimately show ?thesis using Submit
    by (simp add: schedule_def Let_def count_ok_processQueue)
next
  case (FnSettled p oc)
  then show ?thesis using assms(1) by (simp add: count_ok_def inFlight_def)
next
  case (RunThenCatch p)
  show ?thesis
  proof (cases "stage s p = AwaitThen \<and> fnPromise s p \<noteq> None")
    case True
    have "filter (\<lambda>t. ((stage s)(p := AwaitFinally)) (promise t) \<noteq> Done) (started s)
        = filter (\<lambda>t. stage s (promise t) \<noteq> Done) (started s)"
      using True by (intro filter_cong) auto
    then show ?thesis using RunThenCatch True assms(1)
      by (auto simp: count_ok_def inFlight_def settle_def)
  next
    case False
    then show ?thesis using RunThenCatch assms(1) by (auto split: option.splits)
  qed
next
  case (RunFinally p)
  show ?thesis
  proof (cases "stage s p = AwaitFinally")
    case True
    let ?s1 = "s\<lparr>stage := (stage s)(p := Done), activeCount := activeCount s - 1\<rparr>"
    have d: "distinct (map promise (started s))"
    proof -
      have "distinct (map promise (started s) @ map promise (queue s))"
        using assms(2) by (simp add: order_ok_def)
      then show ?thesis by simp
    qed
    have m: "p \<in> promise ` set (started s)" using assms(2) True by (simp add: order_ok_def)
    have "Suc (length (inFlight ?s1)) = length (inFlight s)"
      using filter_upd_done[OF d m, of "stage s" Done] True by (simp add: inFlight_def)
    then have "count_ok ?s1" using assms(1) by (simp add: count_ok_def)
    moreover have "order_ok ?s1" using assms(2) True by (auto simp: order_ok_def)
    ultimately show ?thesis using RunFinally True
      by (simp add: onFinally_def count_ok_processQueue)
  next
    case False
    then show ?thesis using RunFinally assms(1) by simp
  qed
qed

lemma count_ok_exec: "count_ok (exec es (simplePool c))"
proof (induction es rule: rev_induct)
  case Nil
  show ?case by (simp add: count_ok_def simplePool_def inFlight_def)
next
  case (snoc e es)
  then show ?case by (simp add: count_ok_step order_ok_exec)
qed

lemma unsettled_le_inFlight:
  assumes "outcome_ok s" shows "length (unsettled s) \<le> length (inFlight s)"
proof -
  have "promises s p = None \<Longrightarrow> stage s p \<noteq> Done" for p
    using assms[unfolded outcome_ok_def, rule_format, of p] by auto
  then have "filter (\<lambda>t. promises s (promise t) = None) (started s)
      = filter (\<lambda>t. promises s (promise t) = None) (inFlight s)"
    unfolding inFlight_def by (auto intro: filter_cong)
  then show ?thesis by (simp add: unsettled_def)
qed

lemma submissions_append: "submissions (es @ es') = submissions es @ submissions es'"
  by (induction es rule: submissions.induct) simp_all

lemma taskObjects_snoc:
  "taskObjects (fs @ [f]) = taskObjects fs @ [\<lparr>fn = f, promise = length fs\<rparr>]"
  by (simp add: taskObjects_def)

lemma fifo_ok_processQueue: "fifo_ok fs s \<Longrightarrow> fifo_ok fs (processQueue s)"
  by (auto simp: fifo_ok_def processQueue_def runTask_def split: list.splits)

lemma fifo_ok_step: 
  assumes "fifo_ok (submissions es) s" shows "fifo_ok (submissions (es @ [e])) (step e s)"
proof (cases e)
  case (Submit f)
  have "fifo_ok (submissions es @ [f])
      (s\<lparr>created := Suc (created s), queue := queue s @ [\<lparr>fn = f, promise = created s\<rparr>]\<rparr>)"
    using assms by (simp add: fifo_ok_def taskObjects_snoc)
  then show ?thesis using Submit
    by (simp add: submissions_append schedule_def Let_def fifo_ok_processQueue)
next
  case (FnSettled p oc)
  then show ?thesis using assms by (simp add: submissions_append fifo_ok_def)
next
  case (RunThenCatch p)
  then show ?thesis using assms
    by (simp add: submissions_append fifo_ok_def settle_def split: option.splits)
next
  case (RunFinally p) 
  have "fifo_ok (submissions es) (s\<lparr>stage := (stage s)(p := Done), activeCount := activeCount s - 1\<rparr>)"
    using assms by (simp add: fifo_ok_def)
  then show ?thesis using RunFinally assms
    by (simp add: submissions_append onFinally_def fifo_ok_processQueue)
qed

lemma fifo_ok_exec: "fifo_ok (submissions es) (exec es (simplePool L))"
proof (induction es rule: rev_induct)
  case Nil
  show ?case by (simp add: fifo_ok_def simplePool_def taskObjects_def)
next
  case (snoc e es)
  then show ?case by (simp add: fifo_ok_step)
qed

lemma advance_stop:
  "\<not> (activeCount s < concurrency s \<and> queue s \<noteq> []) \<Longrightarrow> advance s = s"
  by (auto simp: advance.simps [of s])

lemma advance_eq_processQueue:
  assumes "length (queue s) \<le> 1 \<or> concurrency s \<le> activeCount s + 1"
  shows "advance s = processQueue s"
proof (cases "activeCount s < concurrency s \<and> queue s \<noteq> []")
  case False
  then show ?thesis by (auto simp: advance.simps [of s] processQueue_def)
next
  case True
  then obtain t rest where q: "queue s = t # rest" by (cases "queue s") auto
  let ?s' = "runTask t (s\<lparr>queue := rest\<rparr>)"
  have "advance s = advance ?s'" using True q by (simp add: advance.simps [of s])
  moreover have "advance ?s' = ?s'"
    using assms q by (intro advance_stop) (auto simp: runTask_def)
  moreover have "processQueue s = ?s'" using True q by (simp add: processQueue_def)
  ultimately show ?thesis by simp
qed

lemma spec_step_eq_step:
  assumes "slots_ok s" shows "spec_step e s = step e s"
proof (cases e)
  case (Submit f)
  let ?s2 = "s\<lparr>created := Suc (created s), queue := queue s @ [\<lparr>fn = f, promise = created s\<rparr>]\<rparr>"
  have "length (queue ?s2) \<le> 1 \<or> concurrency ?s2 \<le> activeCount ?s2 + 1"
    using assms by (cases "queue s = []") (auto simp: slots_ok_def)
  then have "advance ?s2 = processQueue ?s2" by (rule advance_eq_processQueue)
  then show ?thesis using Submit by (simp add: schedule_def Let_def)
next
  case (FnSettled p oc)
  then show ?thesis by simp
next
  case (RunThenCatch p)
  then show ?thesis by simp
next
  case (RunFinally p)
  let ?s1 = "s\<lparr>stage := (stage s)(p := Done), activeCount := activeCount s - 1\<rparr>"
  have "length (queue ?s1) \<le> 1 \<or> concurrency ?s1 \<le> activeCount ?s1 + 1"
    using assms by (cases "queue s = []") (auto simp: slots_ok_def)
  then have "advance ?s1 = processQueue ?s1" by (rule advance_eq_processQueue)
  then show ?thesis using RunFinally by (simp add: onFinally_def)
qed

lemma length_taskObjects [simp]: "length (taskObjects fs) = length fs"
  by (simp add: taskObjects_def)

lemma activeCount_le_submitted:
  "activeCount (exec es (simplePool L)) + int (length (queue (exec es (simplePool L))))
     \<le> int (length (submissions es))"
proof -
  let ?s = "exec es (simplePool L)"
  have "length (started ?s) + length (queue ?s) = length (submissions es)"
    using arg_cong [OF fifo_ok_exec [of es L, unfolded fifo_ok_def, THEN conjunct1], of length]
    by simp
  moreover have "activeCount ?s \<le> int (length (started ?s))"
    using count_ok_exec [of es L] by (simp add: count_ok_def inFlight_def)
  ultimately show ?thesis by linarith
qed

lemma submissions_snoc_le: "length (submissions es) \<le> length (submissions (es @ [e]))"
  by (simp add: submissions_append)

lemma Submit_on_free_slot:
  assumes "queue s = []" "activeCount s < concurrency s"
  shows "started (step (Submit f) s) = started s @ [\<lparr>fn = f, promise = created s\<rparr>]"
    "queue (step (Submit f) s) = []"
    "stage (step (Submit f) s) (created s) = AwaitThen"
  using assms by (simp_all add: schedule_def Let_def processQueue_def runTask_def)

lemma queue_empty_while_few:
  "int (length (submissions es)) \<le> L \<Longrightarrow> queue (exec es (simplePool L)) = []"
proof (induction es rule: rev_induct)
  case Nil
  show ?case by (simp add: simplePool_def)
next
  case (snoc e es)
  let ?s = "exec es (simplePool L)"
  have le: "int (length (submissions es)) \<le> L"
    using snoc.prems submissions_snoc_le [of es e] by linarith
  then have q: "queue ?s = []" by (rule snoc.IH)
  show ?case
  proof (cases e)
    case (Submit f)
    have "int (length (submissions es)) < L" using snoc.prems Submit
      by (simp add: submissions_append)
    then have "activeCount ?s < concurrency ?s"
      using activeCount_le_submitted [of es L] by (simp add: simplePool_def)
    then show ?thesis using Submit Submit_on_free_slot(2) [OF q, of f] by simp
  next
    case (FnSettled p oc)
    then show ?thesis using q by simp
  next
    case (RunThenCatch p)
    then show ?thesis using q by (simp add: settle_def split: option.splits)
  next
    case (RunFinally p)
    then show ?thesis using q by (simp add: onFinally_def processQueue_def)
  qed
qed

lemma idle_step: "idle s \<Longrightarrow> concurrency s \<le> 0 \<Longrightarrow> idle (step e s)"
  by (cases e) (auto simp: idle_def schedule_def Let_def processQueue_def)

lemma idle_exec: "L \<le> 0 \<Longrightarrow> idle (exec es (simplePool L))"
proof (induction es rule: rev_induct)
  case Nil
  show ?case by (simp add: idle_def simplePool_def)
next
  case (snoc e es)
  then show ?case by (simp add: idle_step simplePool_def)
qed

lemma promises_step_stable:
  "promises s p = Some oc \<Longrightarrow> promises (step e s) p = Some oc"
  by (cases e) (auto simp: schedule_def Let_def settle_def onFinally_def split: option.splits)

lemma promises_exec_stable:
  "promises s p = Some oc \<Longrightarrow> promises (exec es s) p = Some oc"
  by (induction es rule: rev_induct) (simp_all add: promises_step_stable)

lemma settled_is_own_outcome:
  assumes "outcome_ok s" "promises s p = Some oc" shows "fnPromise s p = Some oc"
  using assms(1) [unfolded outcome_ok_def, rule_format, of p] assms(2)
  by (cases "stage s p") auto

lemma handler_settles:
  assumes "outcome_ok s" "fnPromise s p = Some oc"
  shows "promises (step (RunThenCatch p) s) p = Some oc"
  using assms(1) [unfolded outcome_ok_def, rule_format, of p] assms(2)
  by (cases "stage s p") (auto simp: settle_def)

lemma same_but_processQueue:
  "same_but p s s' \<Longrightarrow> same_but p (processQueue s) (processQueue s')"
  by (auto simp: same_but_def processQueue_def runTask_def split: list.splits)

lemma same_but_step:
  assumes "same_but p s s'" shows "same_but p (step e s) (step (withOutcome p oc e) s')"
proof (cases e)
  case (Submit f)
  have "same_but p
      (s\<lparr>created := Suc (created s), queue := queue s @ [\<lparr>fn = f, promise = created s\<rparr>]\<rparr>)
      (s'\<lparr>created := Suc (created s'), queue := queue s' @ [\<lparr>fn = f, promise = created s'\<rparr>]\<rparr>)"
    using assms by (simp add: same_but_def)
  then show ?thesis using Submit by (simp add: schedule_def Let_def same_but_processQueue)
next
  case (FnSettled q oc')
  then show ?thesis using assms by (auto simp: same_but_def)
next
  case (RunThenCatch q)
  then show ?thesis using assms
    by (cases "q = p") (auto simp: same_but_def settle_def split: option.splits)
next
  case (RunFinally q)
  have "same_but p
      (s\<lparr>stage := (stage s)(q := Done), activeCount := activeCount s - 1\<rparr>)
      (s'\<lparr>stage := (stage s')(q := Done), activeCount := activeCount s' - 1\<rparr>)"
    using assms by (simp add: same_but_def)
  then have "same_but p (onFinally (s\<lparr>stage := (stage s)(q := Done)\<rparr>))
      (onFinally (s'\<lparr>stage := (stage s')(q := Done)\<rparr>))"
    by (simp add: onFinally_def same_but_processQueue)
  then show ?thesis using RunFinally assms by (auto simp: same_but_def)
qed

lemma same_but_exec:
  "same_but p (exec es (simplePool L)) (exec (map (withOutcome p oc) es) (simplePool L))"
proof (induction es rule: rev_induct)
  case Nil
  show ?case by (simp add: same_but_def)
next
  case (snoc e es)
  then show ?case by (simp add: same_but_step)
qed

lemma running_task_counted:
  assumes "count_ok s" "order_ok s" "stage s p = AwaitThen" shows "0 < activeCount s"
proof -
  have "p \<in> promise ` set (started s)" using assms(2,3) by (simp add: order_ok_def)
  then obtain t where "t \<in> set (started s)" "promise t = p" by auto
  then have "t \<in> set (inFlight s)" using assms(3) by (simp add: inFlight_def)
  then have "0 < length (inFlight s)" by (cases "inFlight s") auto
  then show ?thesis using assms(1) by (simp add: count_ok_def)
qed

lemma failing_task_frees_slot:
  assumes "slots_ok s" "outcome_ok s" "0 < activeCount s"
    "stage s p = AwaitThen" "fnPromise s p = Some (Rejected x)"
  shows "promises (step (RunFinally p) (step (RunThenCatch p) s)) p = Some (Rejected x)"
    "\<forall>q. q \<noteq> p \<longrightarrow> promises (step (RunFinally p) (step (RunThenCatch p) s)) q = promises s q"
    "queue s = [] \<longrightarrow> activeCount (step (RunFinally p) (step (RunThenCatch p) s)) = activeCount s - 1"
    "queue s \<noteq> [] \<longrightarrow>
       started (step (RunFinally p) (step (RunThenCatch p) s)) = started s @ [hd (queue s)] \<and>
       queue (step (RunFinally p) (step (RunThenCatch p) s)) = tl (queue s)"
proof -
  have n: "promises s p = None"
    using assms(2) [unfolded outcome_ok_def, rule_format, of p] assms(4) by simp
  have a: "queue s \<noteq> [] \<Longrightarrow> activeCount s = concurrency s"
    using assms(1) assms(3) by (auto simp: slots_ok_def)
  show "promises (step (RunFinally p) (step (RunThenCatch p) s)) p = Some (Rejected x)"
    using assms(4,5) n by (simp add: settle_def onFinally_def)
  show "\<forall>q. q \<noteq> p \<longrightarrow> promises (step (RunFinally p) (step (RunThenCatch p) s)) q = promises s q"
    using assms(4,5) n by (simp add: settle_def onFinally_def)
  show "queue s = [] \<longrightarrow> activeCount (step (RunFinally p) (step (RunThenCatch p) s)) = activeCount s - 1"
    using assms(4,5) n by (simp add: settle_def onFinally_def processQueue_def)
  show "queue s \<noteq> [] \<longrightarrow>
       started (step (RunFinally p) (step (RunThenCatch p) s)) = started s @ [hd (queue s)] \<and>
       queue (step (RunFinally p) (step (RunThenCatch p) s)) = tl (queue s)"
    using assms(4,5) n a
    by (cases "queue s") (auto simp: settle_def onFinally_def processQueue_def runTask_def)
qed

text \<open>
  Outside the reachable states the two differ: with two free slots and two waiting tasks
  the loop starts both, \<open>processQueue\<close> one.
\<close>

lemma advance_differs_off_reachable:
  "started (advance ((simplePool 2 :: (nat, nat, string) pool)
      \<lparr>queue := [\<lparr>fn = 10, promise = 0\<rparr>, \<lparr>fn = 11, promise = 1\<rparr>], created := 2\<rparr>))
     = [\<lparr>fn = 10, promise = 0\<rparr>, \<lparr>fn = 11, promise = 1\<rparr>] \<and>
   started (processQueue ((simplePool 2 :: (nat, nat, string) pool)
      \<lparr>queue := [\<lparr>fn = 10, promise = 0\<rparr>, \<lparr>fn = 11, promise = 1\<rparr>], created := 2\<rparr>))
     = [\<lparr>fn = 10, promise = 0\<rparr>]"
  by (simp add: advance.simps processQueue_def runTask_def simplePool_def)

section \<open>The claims about the pool\<close>

text \<open>
  C1. For every concurrency limit \<open>L > 0\<close> and every sequence of events of a pool made
  by \<open>simplePool L\<close>, the counter \<open>activeCount\<close> never exceeds \<open>L\<close>. The counter is
  the number of tasks in flight (started, \<open>.finally\<close> handler not yet run), and the
  started tasks whose returned promise is still pending are among those.
\<close>

theorem activeCount_bounded:
  assumes "0 < L"
  shows "activeCount (exec es (simplePool L)) \<le> L \<and>
         activeCount (exec es (simplePool L)) = int (length (inFlight (exec es (simplePool L)))) \<and>
         length (unsettled (exec es (simplePool L))) \<le> length (inFlight (exec es (simplePool L)))"
proof -
  have "activeCount (exec es (simplePool L)) \<le> L"
    using slots_ok_exec[of es L] assms by (simp add: slots_ok_def simplePool_def)
  then show ?thesis
    using count_ok_exec[of es L] unsettled_le_inFlight[OF outcome_ok_exec, of es L]
    by (simp add: count_ok_def)
qed

theorem activeCount_bounded_witness:
  "(0::int) < 2 \<and>
   activeCount (exec [Submit (10::nat), Submit 11, Submit 12, FnSettled 0 (Resolved (7::nat)),
      RunThenCatch 0] (simplePool 2) :: (nat, nat, string) pool) = 2 \<and>
   map promise (inFlight (exec [Submit (10::nat), Submit 11, Submit 12, FnSettled 0 (Resolved (7::nat)),
      RunThenCatch 0] (simplePool 2) :: (nat, nat, string) pool)) = [0, 1] \<and>
   map promise (unsettled (exec [Submit (10::nat), Submit 11, Submit 12, FnSettled 0 (Resolved (7::nat)),
      RunThenCatch 0] (simplePool 2) :: (nat, nat, string) pool)) = [1]"
  using activeCount_bounded [of 2 "[Submit (10::nat), Submit 11, Submit 12,
      FnSettled 0 (Resolved (7::nat)), RunThenCatch 0] :: (nat, nat, string) event list"]
  by (simp add: exec_def simplePool_def schedule_def processQueue_def runTask_def settle_def
      inFlight_def unsettled_def)

text \<open>
  C2. Tasks begin execution in exactly the order they were submitted, none reordered and
  none skipped: after every event sequence, the calls of \<open>runTask\<close> so far, followed by
  the tasks still waiting in the queue, are the task objects of the submissions in the
  order of submission. So the started tasks are always a prefix of the submissions.
\<close>

theorem start_order_is_submission_order:
  "started (exec es (simplePool L)) @ queue (exec es (simplePool L)) = taskObjects (submissions es)"
  using fifo_ok_exec [of es L] by (simp add: fifo_ok_def)

theorem start_order_is_submission_order_witness:
  "started (exec ([Submit (10::nat), Submit 11, Submit 12, FnSettled 0 (Resolved (7::nat)),
      RunThenCatch 0, RunFinally 0] :: (nat, nat, string) event list) (simplePool 1))
     = [\<lparr>fn = 10, promise = 0\<rparr>, \<lparr>fn = 11, promise = 1\<rparr>] \<and>
   queue (exec ([Submit (10::nat), Submit 11, Submit 12, FnSettled 0 (Resolved (7::nat)),
      RunThenCatch 0, RunFinally 0] :: (nat, nat, string) event list) (simplePool 1))
     = [\<lparr>fn = 12, promise = 2\<rparr>] \<and>
   taskObjects (submissions ([Submit (10::nat), Submit 11, Submit 12,
      FnSettled 0 (Resolved (7::nat)), RunThenCatch 0, RunFinally 0]
      :: (nat, nat, string) event list))
     = [\<lparr>fn = 10, promise = 0\<rparr>, \<lparr>fn = 11, promise = 1\<rparr>, \<lparr>fn = 12, promise = 2\<rparr>]"
  using start_order_is_submission_order [of "[Submit (10::nat), Submit 11, Submit 12,
      FnSettled 0 (Resolved (7::nat)), RunThenCatch 0, RunFinally 0]
      :: (nat, nat, string) event list" 1]
  by (simp add: exec_def simplePool_def schedule_def processQueue_def runTask_def settle_def
      onFinally_def taskObjects_def upt_rec)

text \<open>
  C3. The promise returned by the scheduling function settles with the task's own
  outcome, and once: whenever it is settled, it holds what the promise of the task's own
  \<open>fn\<close> settled with; once the promise of \<open>fn\<close> has settled with \<open>oc\<close>, the handler of
  \<open>.then\<close>/\<open>.catch\<close> leaves the returned promise settled with \<open>oc\<close> (\<open>Resolved v\<close> for a
  resolution with \<open>v\<close>, \<open>Rejected x\<close> for a rejection with \<open>x\<close>); and no later event
  changes a settled promise.
\<close>

theorem promise_settles_with_own_outcome:
  "(promises (exec es (simplePool L)) p = Some oc \<longrightarrow>
      fnPromise (exec es (simplePool L)) p = Some oc) \<and>
   (fnPromise (exec es (simplePool L)) p = Some oc \<longrightarrow>
      promises (step (RunThenCatch p) (exec es (simplePool L))) p = Some oc) \<and>
   (promises (exec es (simplePool L)) p = Some oc \<longrightarrow>
      promises (exec es' (exec es (simplePool L))) p = Some oc)"
  using settled_is_own_outcome [OF outcome_ok_exec, of es L p oc]
    handler_settles [OF outcome_ok_exec, of es L p oc]
    promises_exec_stable [of "exec es (simplePool L)" p oc es']
  by blast

theorem promise_settles_with_own_outcome_witness:
  "fnPromise (exec ([Submit (10::nat), Submit 11, FnSettled 1 (Rejected ''network error''),
      FnSettled 0 (Resolved (7::nat))] :: (nat, nat, string) event list) (simplePool 5)) 1
     = Some (Rejected ''network error'') \<and>
   promises (step (RunThenCatch 1) (exec ([Submit (10::nat), Submit 11,
      FnSettled 1 (Rejected ''network error''), FnSettled 0 (Resolved (7::nat))]
      :: (nat, nat, string) event list) (simplePool 5))) 1
     = Some (Rejected ''network error'') \<and>
   promises (exec ([Submit (10::nat), Submit 11, FnSettled 1 (Rejected ''network error''),
      FnSettled 0 (Resolved (7::nat))] :: (nat, nat, string) event list) (simplePool 5)) 0
     = None \<and>
   promises (exec ([Submit (10::nat), FnSettled 0 (Resolved (7::nat)), RunThenCatch 0]
      :: (nat, nat, string) event list) (simplePool 5)) 0 = Some (Resolved 7) \<and>
   promises (exec [RunFinally 0, Submit 11, FnSettled 0 (Rejected ''late''), RunThenCatch 0]
      (exec ([Submit (10::nat), FnSettled 0 (Resolved (7::nat)), RunThenCatch 0]
      :: (nat, nat, string) event list) (simplePool 5))) 0 = Some (Resolved 7)"
  using promise_settles_with_own_outcome [of "[Submit (10::nat), Submit 11,
      FnSettled 1 (Rejected ''network error''), FnSettled 0 (Resolved (7::nat))]
      :: (nat, nat, string) event list" 5 1 "Rejected ''network error''" "[]"]
    promise_settles_with_own_outcome [of "[Submit (10::nat), FnSettled 0 (Resolved (7::nat)),
      RunThenCatch 0] :: (nat, nat, string) event list" 5 0 "Resolved 7"
      "[RunFinally 0, Submit 11, FnSettled 0 (Rejected ''late''), RunThenCatch 0]"]
  by (simp add: exec_def simplePool_def schedule_def processQueue_def runTask_def settle_def
      onFinally_def)

text \<open>
  C4. A failure reaches only the failing task's own promise. First, replace what the
  promise of the \<open>fn\<close> of task \<open>p\<close> settles with by any other outcome \<open>oc\<close> (a rejection
  by a resolution, or the reverse): the queue, the counter, the started tasks, the stage
  of every task and every other task's promise are the same after the same events.
  Second, when the \<open>fn\<close> of a started task \<open>p\<close> has rejected with \<open>x\<close> and its handlers
  run, promise \<open>p\<close> is rejected with \<open>x\<close>, no other promise changes, and the slot is
  given back: the head of the queue is started if a task waits, else the counter is one
  less.
\<close>

theorem failure_is_isolated:
  fixes es :: "('f, 'v, 'e) event list" and oc :: "('v, 'e) outcome" and L :: int and p :: nat
  defines "s \<equiv> exec es (simplePool L)"
    and "s' \<equiv> exec (map (withOutcome p oc) es) (simplePool L)"
    and "s2 \<equiv> step (RunFinally p) (step (RunThenCatch p) (exec es (simplePool L)))"
  shows "(queue s' = queue s \<and> activeCount s' = activeCount s \<and> started s' = started s \<and>
          stage s' = stage s \<and> (\<forall>q. q \<noteq> p \<longrightarrow> promises s' q = promises s q)) \<and>
         (stage s p = AwaitThen \<and> fnPromise s p = Some (Rejected x) \<longrightarrow>
            promises s2 p = Some (Rejected x) \<and>
            (\<forall>q. q \<noteq> p \<longrightarrow> promises s2 q = promises s q) \<and>
            (queue s = [] \<longrightarrow> activeCount s2 = activeCount s - 1) \<and>
            (queue s \<noteq> [] \<longrightarrow> started s2 = started s @ [hd (queue s)] \<and>
               queue s2 = tl (queue s)))"
proof
  show "queue s' = queue s \<and> activeCount s' = activeCount s \<and> started s' = started s \<and>
      stage s' = stage s \<and> (\<forall>q. q \<noteq> p \<longrightarrow> promises s' q = promises s q)"
    using same_but_exec [of p es L oc] unfolding s_def s'_def same_but_def by blast
next
  show "stage s p = AwaitThen \<and> fnPromise s p = Some (Rejected x) \<longrightarrow>
      promises s2 p = Some (Rejected x) \<and>
      (\<forall>q. q \<noteq> p \<longrightarrow> promises s2 q = promises s q) \<and>
      (queue s = [] \<longrightarrow> activeCount s2 = activeCount s - 1) \<and>
      (queue s \<noteq> [] \<longrightarrow> started s2 = started s @ [hd (queue s)] \<and> queue s2 = tl (queue s))"
  proof
    assume a: "stage s p = AwaitThen \<and> fnPromise s p = Some (Rejected x)"
    have so: "slots_ok s" and oo: "outcome_ok s" and co: "count_ok s" and oo': "order_ok s"
      unfolding s_def
      by (rule slots_ok_exec, rule outcome_ok_exec, rule count_ok_exec, rule order_ok_exec)
    have pos: "0 < activeCount s" using co oo' a by (blast intro: running_task_counted)
    show "promises s2 p = Some (Rejected x) \<and>
      (\<forall>q. q \<noteq> p \<longrightarrow> promises s2 q = promises s q) \<and>
      (queue s = [] \<longrightarrow> activeCount s2 = activeCount s - 1) \<and>
      (queue s \<noteq> [] \<longrightarrow> started s2 = started s @ [hd (queue s)] \<and> queue s2 = tl (queue s))"
      using failing_task_frees_slot [OF so oo pos, of p x] a
      unfolding s2_def s_def by blast
  qed
qed

theorem failure_is_isolated_witness:
  "stage (exec ([Submit (10::nat), Submit 11, FnSettled 0 (Rejected ''network error'')]
      :: (nat, nat, string) event list) (simplePool 1)) 0 = AwaitThen \<and>
   fnPromise (exec ([Submit (10::nat), Submit 11, FnSettled 0 (Rejected ''network error'')]
      :: (nat, nat, string) event list) (simplePool 1)) 0 = Some (Rejected ''network error'') \<and>
   queue (exec ([Submit (10::nat), Submit 11, FnSettled 0 (Rejected ''network error'')]
      :: (nat, nat, string) event list) (simplePool 1)) = [\<lparr>fn = 11, promise = 1\<rparr>] \<and>
   promises (step (RunFinally 0) (step (RunThenCatch 0)
      (exec ([Submit (10::nat), Submit 11, FnSettled 0 (Rejected ''network error'')]
      :: (nat, nat, string) event list) (simplePool 1)))) 0 = Some (Rejected ''network error'') \<and>
   promises (step (RunFinally 0) (step (RunThenCatch 0)
      (exec ([Submit (10::nat), Submit 11, FnSettled 0 (Rejected ''network error'')]
      :: (nat, nat, string) event list) (simplePool 1)))) 1 = None \<and>
   started (step (RunFinally 0) (step (RunThenCatch 0)
      (exec ([Submit (10::nat), Submit 11, FnSettled 0 (Rejected ''network error'')]
      :: (nat, nat, string) event list) (simplePool 1))))
     = [\<lparr>fn = 10, promise = 0\<rparr>, \<lparr>fn = 11, promise = 1\<rparr>] \<and>
   activeCount (step (RunFinally 0) (step (RunThenCatch 0)
      (exec ([Submit (10::nat), Submit 11, FnSettled 0 (Rejected ''network error'')]
      :: (nat, nat, string) event list) (simplePool 1)))) = 1"
  using failure_is_isolated [where p = 0 and oc = "Resolved (7::nat)" and L = 1
      and x = "''network error''"
      and es = "[Submit (10::nat), Submit 11, FnSettled 0 (Rejected ''network error'')]
      :: (nat, nat, string) event list"]
  by (simp add: exec_def simplePool_def schedule_def processQueue_def runTask_def settle_def
      onFinally_def)

text \<open>
  C5. The specification's advance step, a loop, and the implementation's
  \<open>processQueue\<close>, one \<open>if\<close>, give the same pool after every event sequence, and the same
  pool for every next event in every reachable state: there a call finds at most one
  free slot to fill or at most one waiting task, so the loop runs its body at most once.
\<close>

theorem advance_loop_refines_processQueue:
  "spec_exec es (simplePool L) = exec es (simplePool L) \<and>
   spec_step e (exec es (simplePool L)) = step e (exec es (simplePool L))"
proof
  show "spec_exec es (simplePool L) = exec es (simplePool L)"
  proof (induction es rule: rev_induct)
    case Nil
    show ?case by (simp add: spec_exec_def)
  next
    case (snoc x xs)
    have "spec_exec (xs @ [x]) (simplePool L) = spec_step x (spec_exec xs (simplePool L))"
      by (simp add: spec_exec_def)
    also have "\<dots> = spec_step x (exec xs (simplePool L))" by (simp add: snoc)
    also have "\<dots> = step x (exec xs (simplePool L))"
      by (rule spec_step_eq_step) (rule slots_ok_exec)
    finally show ?case by simp
  qed
next
  show "spec_step e (exec es (simplePool L)) = step e (exec es (simplePool L))"
    by (rule spec_step_eq_step) (rule slots_ok_exec)
qed

theorem advance_loop_refines_processQueue_witness:
  "started (spec_exec ([Submit (10::nat), Submit 11, Submit 12, FnSettled 0 (Resolved (7::nat)),
      RunThenCatch 0, RunFinally 0] :: (nat, nat, string) event list) (simplePool 1))
     = [\<lparr>fn = 10, promise = 0\<rparr>, \<lparr>fn = 11, promise = 1\<rparr>] \<and>
   started (exec ([Submit (10::nat), Submit 11, Submit 12, FnSettled 0 (Resolved (7::nat)),
      RunThenCatch 0, RunFinally 0] :: (nat, nat, string) event list) (simplePool 1))
     = [\<lparr>fn = 10, promise = 0\<rparr>, \<lparr>fn = 11, promise = 1\<rparr>]"
  using advance_loop_refines_processQueue [of "[Submit (10::nat), Submit 11, Submit 12,
      FnSettled 0 (Resolved (7::nat)), RunThenCatch 0, RunFinally 0]
      :: (nat, nat, string) event list" 1 "RunFinally 1"]
  by (simp add: exec_def simplePool_def schedule_def processQueue_def runTask_def settle_def
      onFinally_def)

text \<open>
  C6. When the limit \<open>L\<close> is at least the number \<open>T\<close> of tasks submitted (this one
  included), every call of the scheduling function starts its task inside the call: the
  task is appended to the started tasks, its \<open>fn\<close> has been called (stage \<open>AwaitThen\<close>)
  and the queue is empty when the call returns.
\<close>

theorem all_start_immediately:
  assumes "int (length (submissions (es @ [Submit f]))) \<le> L"
  shows "started (exec (es @ [Submit f]) (simplePool L))
           = started (exec es (simplePool L)) @ [\<lparr>fn = f, promise = length (submissions es)\<rparr>] \<and>
         queue (exec (es @ [Submit f]) (simplePool L)) = [] \<and>
         stage (exec (es @ [Submit f]) (simplePool L)) (length (submissions es)) = AwaitThen"
proof -
  let ?s = "exec es (simplePool L)"
  have lt: "int (length (submissions es)) < L" using assms by (simp add: submissions_append)
  then have q: "queue ?s = []" by (simp add: queue_empty_while_few)
  have a: "activeCount ?s < concurrency ?s"
    using lt activeCount_le_submitted [of es L] by (simp add: simplePool_def)
  have c: "created ?s = length (submissions es)"
    using fifo_ok_exec [of es L] by (simp add: fifo_ok_def)
  show ?thesis using Submit_on_free_slot [OF q a, of f] c by simp
qed

theorem all_start_immediately_witness:
  "int (length (submissions (([Submit (10::nat), FnSettled 0 (Resolved (7::nat)), Submit 11]
      :: (nat, nat, string) event list) @ [Submit 12]))) \<le> 3 \<and>
   started (exec (([Submit (10::nat), FnSettled 0 (Resolved (7::nat)), Submit 11]
      :: (nat, nat, string) event list) @ [Submit 12]) (simplePool 3))
     = [\<lparr>fn = 10, promise = 0\<rparr>, \<lparr>fn = 11, promise = 1\<rparr>, \<lparr>fn = 12, promise = 2\<rparr>] \<and>
   queue (exec (([Submit (10::nat), FnSettled 0 (Resolved (7::nat)), Submit 11]
      :: (nat, nat, string) event list) @ [Submit 12]) (simplePool 3)) = []"
  using all_start_immediately [of "[Submit (10::nat), FnSettled 0 (Resolved (7::nat)), Submit 11]
      :: (nat, nat, string) event list" 12 3]
  by (simp add: exec_def simplePool_def schedule_def processQueue_def runTask_def)

text \<open>
  C7. With a limit \<open>L \<le> 0\<close> no task ever starts: after every event sequence nothing
  has been started, the queue holds every submitted task in order (it grows by one with
  each submission), and no returned promise is settled.
\<close>

theorem nonpositive_limit_never_starts:
  assumes "L \<le> 0"
  shows "started (exec es (simplePool L)) = [] \<and>
         queue (exec es (simplePool L)) = taskObjects (submissions es) \<and>
         length (queue (exec es (simplePool L))) = length (submissions es) \<and>
         promises (exec es (simplePool L)) = (\<lambda>_. None) \<and>
         activeCount (exec es (simplePool L)) = 0"
proof -
  have i: "idle (exec es (simplePool L))" using assms by (rule idle_exec)
  then have "queue (exec es (simplePool L)) = taskObjects (submissions es)"
    using fifo_ok_exec [of es L] by (simp add: fifo_ok_def idle_def)
  then show ?thesis using i by (simp add: idle_def)
qed

theorem nonpositive_limit_never_starts_witness:
  "(0::int) \<le> 0 \<and>
   started (exec ([Submit (10::nat), Submit 11, FnSettled 0 (Resolved (7::nat)), RunThenCatch 0]
      :: (nat, nat, string) event list) (simplePool 0)) = [] \<and>
   queue (exec ([Submit (10::nat), Submit 11, FnSettled 0 (Resolved (7::nat)), RunThenCatch 0]
      :: (nat, nat, string) event list) (simplePool 0))
     = [\<lparr>fn = 10, promise = 0\<rparr>, \<lparr>fn = 11, promise = 1\<rparr>] \<and>
   promises (exec ([Submit (10::nat), Submit 11, FnSettled 0 (Resolved (7::nat)), RunThenCatch 0]
      :: (nat, nat, string) event list) (simplePool 0)) 0 = None"
  using nonpositive_limit_never_starts [of 0 "[Submit (10::nat), Submit 11,
      FnSettled 0 (Resolved (7::nat)), RunThenCatch 0] :: (nat, nat, string) event list"]
  by (simp add: exec_def simplePool_def schedule_def processQueue_def runTask_def)

section \<open>Lemmas about the tool\<close>

lemma schedule_eq: "schedule f s = (created s, step (Submit f) s)"
  by (simp add: schedule_def Let_def)

lemma pool_ok_init: "pool_ok (simplePool c)"
  using slots_ok_exec [of "[]" c] order_ok_exec [of "[]" c] outcome_ok_exec [of "[]" c]
    count_ok_exec [of "[]" c]
  by (simp add: pool_ok_def)

lemma pool_ok_step: "pool_ok s \<Longrightarrow> pool_ok (step e s)"
  by (simp add: pool_ok_def slots_ok_step order_ok_step outcome_ok_step count_ok_step)

lemma mark_done_ok:
  assumes "pool_ok s" "stage s p = AwaitFinally"
  shows "order_ok (s\<lparr>stage := (stage s)(p := Done), activeCount := activeCount s - 1\<rparr>)"
    "outcome_ok (s\<lparr>stage := (stage s)(p := Done), activeCount := activeCount s - 1\<rparr>)"
  using assms by (auto simp: pool_ok_def order_ok_def outcome_ok_def)

lemma answers_ok_processQueue:
  assumes "answers_ok e s" "order_ok s" "outcome_ok s"
  shows "answers_ok e (processQueue s)"
proof (cases "activeCount s < concurrency s \<and> queue s \<noteq> []")
  case False
  then show ?thesis using assms(1) by (auto simp: processQueue_def)
next
  case True
  then obtain t rest where q: "queue s = t # rest" by (cases "queue s") auto
  have pq: "processQueue s = runTask t (s\<lparr>queue := rest\<rparr>)"
    using True q by (simp add: processQueue_def)
  have "stage s (promise t) = NotStarted" using assms(2) q by (rule queue_head_fresh(1))
  then have "fnPromise s (promise t) = None" using assms(3) by (simp add: outcome_ok_def)
  then show ?thesis using assms(1) by (auto simp: answers_ok_def pq runTask_def)
qed

lemma answers_ok_Submit:
  assumes "answers_ok e s" "pool_ok s" shows "answers_ok e (step (Submit f) s)"
proof -
  let ?s2 = "s\<lparr>created := Suc (created s), queue := queue s @ [\<lparr>fn = f, promise = created s\<rparr>]\<rparr>"
  have "answers_ok e ?s2" using assms(1) by (simp add: answers_ok_def)
  moreover have "order_ok ?s2" using assms(2) by (simp add: pool_ok_def order_ok_def)
  moreover have "outcome_ok ?s2" using assms(2) by (simp add: pool_ok_def outcome_ok_def)
  ultimately have "answers_ok e (processQueue ?s2)" by (rule answers_ok_processQueue)
  then show ?thesis by (simp add: schedule_def Let_def)
qed

lemma answers_ok_RunThenCatch:
  "answers_ok e s \<Longrightarrow> answers_ok e (step (RunThenCatch p) s)"
  by (auto simp: answers_ok_def settle_def split: option.splits)

lemma answers_ok_RunFinally:
  assumes "answers_ok e s" "pool_ok s" shows "answers_ok e (step (RunFinally p) s)"
proof (cases "stage s p = AwaitFinally")
  case True
  let ?s1 = "s\<lparr>stage := (stage s)(p := Done), activeCount := activeCount s - 1\<rparr>"
  have "answers_ok e ?s1" using assms(1) by (simp add: answers_ok_def)
  then have "answers_ok e (processQueue ?s1)"
    using mark_done_ok [OF assms(2) True] by (rule answers_ok_processQueue)
  then show ?thesis using True by (simp add: onFinally_def)
next
  case False
  then show ?thesis using assms(1) by simp
qed

lemma started_promise_inj:
  assumes "order_ok s" "t \<in> set (started s)" "u \<in> set (started s)" "promise t = promise u"
  shows "t = u"
proof -
  have "distinct (map promise (started s) @ map promise (queue s))"
    using assms(1) by (simp add: order_ok_def)
  then have "inj_on promise (set (started s))" by (simp add: distinct_map)
  then show ?thesis using assms(2-4) by (auto dest: inj_onD)
qed

lemma answers_ok_FnSettled:
  assumes "answers_ok e s" "order_ok s" "u \<in> set (started s)"
  shows "answers_ok e (step (FnSettled (promise u) (Resolved (fetchReplies e (fn u)))) s)"
  unfolding answers_ok_def
proof (intro allI impI)
  fix t oc
  let ?s1 = "step (FnSettled (promise u) (Resolved (fetchReplies e (fn u)))) s"
  assume a: "t \<in> set (started ?s1) \<and> fnPromise ?s1 (promise t) = Some oc"
  then have t: "t \<in> set (started s)" by (simp split: if_splits)
  show "oc = Resolved (fetchReplies e (fn t))"
  proof (cases "promise t = promise u")
    case True
    then have "t = u" using started_promise_inj [OF assms(2) t assms(3)] by simp
    then show ?thesis using a assms(1) t by (auto simp: answers_ok_def split: if_splits)
  next
    case False
    then show ?thesis using a assms(1) t by (auto simp: answers_ok_def split: if_splits)
  qed
qed

lemma processQueue_measure:
  "activeCount (processQueue s) + int (length (queue (processQueue s)))
     = activeCount s + int (length (queue s))"
  by (auto simp: processQueue_def runTask_def split: list.splits)

lemma processQueue_all:
  "started (processQueue s) @ queue (processQueue s) = started s @ queue s"
  "created (processQueue s) = created s"
  by (auto simp: processQueue_def runTask_def split: list.splits)

lemma finishTask_measure:
  assumes "stage s (promise u) = AwaitThen \<or> stage s (promise u) = AwaitFinally"
  shows "activeCount (finishTask e u s) + int (length (queue (finishTask e u s)))
           = activeCount s + int (length (queue s)) - 1"
    "started (finishTask e u s) @ queue (finishTask e u s) = started s @ queue s"
    "created (finishTask e u s) = created s"
    "concurrency (finishTask e u s) = concurrency s"
proof -
  let ?p = "promise u"
  let ?s2 = "step (RunThenCatch ?p) (step (FnSettled ?p (Resolved (fetchReplies e (fn u)))) s)"
  have s2: "stage ?s2 ?p = AwaitFinally \<and> activeCount ?s2 = activeCount s \<and> queue ?s2 = queue s
      \<and> started ?s2 = started s \<and> created ?s2 = created s"
    using assms by (auto simp: settle_def split: option.splits)
  let ?s2' = "?s2\<lparr>stage := (stage ?s2)(?p := Done), activeCount := activeCount ?s2 - 1\<rparr>"
  have f: "finishTask e u s = processQueue ?s2'"
    using s2 by (simp add: finishTask_def onFinally_def)
  show "activeCount (finishTask e u s) + int (length (queue (finishTask e u s)))
           = activeCount s + int (length (queue s)) - 1"
    unfolding f processQueue_measure using s2 by simp
  show "started (finishTask e u s) @ queue (finishTask e u s) = started s @ queue s"
    unfolding f processQueue_all using s2 by simp
  show "created (finishTask e u s) = created s"
    unfolding f processQueue_all using s2 by simp
  show "concurrency (finishTask e u s) = concurrency s"
    by (simp only: finishTask_def concurrency_step)
qed

lemma inFlight_stage:
  assumes "order_ok s" "u \<in> set (inFlight s)"
  shows "u \<in> set (started s)" "stage s (promise u) = AwaitThen \<or> stage s (promise u) = AwaitFinally"
proof -
  show u: "u \<in> set (started s)" using assms(2) by (simp add: inFlight_def)
  then have "stage s (promise u) \<noteq> NotStarted" using assms(1) by (auto simp: order_ok_def)
  moreover have "stage s (promise u) \<noteq> Done" using assms(2) by (simp add: inFlight_def)
  ultimately show "stage s (promise u) = AwaitThen \<or> stage s (promise u) = AwaitFinally"
    by (cases "stage s (promise u)") auto
qed

lemma finishTask_ok:
  assumes "pool_ok s" "answers_ok e s" "u \<in> set (inFlight s)"
  shows "pool_ok (finishTask e u s)" "answers_ok e (finishTask e u s)"
proof -
  have o: "order_ok s" using assms(1) by (simp add: pool_ok_def)
  have u: "u \<in> set (started s)" using o assms(3) by (rule inFlight_stage(1))
  let ?s1 = "step (FnSettled (promise u) (Resolved (fetchReplies e (fn u)))) s"
  have p1: "pool_ok ?s1" using assms(1) by (rule pool_ok_step)
  have a1: "answers_ok e ?s1" using assms(2) o u by (rule answers_ok_FnSettled)
  let ?s2 = "step (RunThenCatch (promise u)) ?s1"
  have p2: "pool_ok ?s2" using p1 by (rule pool_ok_step)
  have a2: "answers_ok e ?s2" using a1 by (rule answers_ok_RunThenCatch)
  show "pool_ok (finishTask e u s)" unfolding finishTask_def using p2 by (rule pool_ok_step)
  show "answers_ok e (finishTask e u s)" unfolding finishTask_def
    using a2 p2 by (rule answers_ok_RunFinally)
qed

lemma inFlight_empty_iff: "count_ok s \<Longrightarrow> inFlight s = [] \<longleftrightarrow> activeCount s = 0"
  by (simp add: count_ok_def)

lemma eventLoop_completes:
  assumes "pool_ok s" "answers_ok e s" "activeCount s + int (length (queue s)) \<le> int n"
  shows "\<exists>s'. eventLoop n e s = Some s' \<and> pool_ok s' \<and> answers_ok e s' \<and> inFlight s' = [] \<and>
           started s' @ queue s' = started s @ queue s \<and> created s' = created s \<and>
           concurrency s' = concurrency s"
  using assms
proof (induction n arbitrary: s)
  case 0
  have "count_ok s" using "0.prems"(1) by (simp add: pool_ok_def)
  then have "0 \<le> activeCount s" by (simp add: count_ok_def)
  then have "activeCount s = 0" using "0.prems"(3) by simp
  then have "inFlight s = []" using \<open>count_ok s\<close> by (simp add: inFlight_empty_iff)
  then show ?case using "0.prems" by (simp add: eventLoop.simps)
next
  case (Suc n)
  show ?case
  proof (cases "inFlight s = []")
    case True
    then show ?thesis using Suc.prems by (simp add: eventLoop.simps)
  next
    case False
    let ?fl = "inFlight s"
    let ?u = "?fl ! (arrival e (map promise ?fl) mod length ?fl)"
    have u: "?u \<in> set ?fl" using False by (intro nth_mem) simp
    have o: "order_ok s" using Suc.prems(1) by (simp add: pool_ok_def)
    have st: "stage s (promise ?u) = AwaitThen \<or> stage s (promise ?u) = AwaitFinally"
      using o u by (rule inFlight_stage(2))
    let ?s3 = "finishTask e ?u s"
    have m: "activeCount ?s3 + int (length (queue ?s3)) \<le> int n"
      using finishTask_measure(1) [OF st, of e] Suc.prems(3) by simp
    obtain s' where s': "eventLoop n e ?s3 = Some s'" "pool_ok s'" "answers_ok e s'"
        "inFlight s' = []" "started s' @ queue s' = started ?s3 @ queue ?s3"
        "created s' = created ?s3" "concurrency s' = concurrency ?s3"
      using Suc.IH [OF finishTask_ok [OF Suc.prems(1,2) u] m] by blast
    have "eventLoop (Suc n) e s = eventLoop n e ?s3"
      using False by (simp add: eventLoop.simps Let_def finishTask_def)
    then show ?thesis using s' finishTask_measure(2-4) [OF st, of e] by simp
  qed
qed

lemma fifo_ok_Submit: "fifo_ok fs s \<Longrightarrow> fifo_ok (fs @ [f]) (step (Submit f) s)"
proof -
  assume "fifo_ok fs s"
  then have "fifo_ok (fs @ [f])
      (s\<lparr>created := Suc (created s), queue := queue s @ [\<lparr>fn = f, promise = created s\<rparr>]\<rparr>)"
    by (simp add: fifo_ok_def taskObjects_snoc)
  then show ?thesis by (simp add: schedule_def Let_def fifo_ok_processQueue)
qed

lemma submitReplyTasks_spec:
  assumes "pool_ok s" "answers_ok e s" "fifo_ok fs s"
  shows "pool_ok (snd (submitReplyTasks oid ck vid cs s)) \<and>
         answers_ok e (snd (submitReplyTasks oid ck vid cs s)) \<and>
         fifo_ok (fs @ repliesCalls oid ck vid cs) (snd (submitReplyTasks oid ck vid cs s)) \<and>
         fst (submitReplyTasks oid ck vid cs s) = promiseRefs (length fs) cs \<and>
         concurrency (snd (submitReplyTasks oid ck vid cs s)) = concurrency s"
  using assms
proof (induction cs arbitrary: s fs)
  case Nil
  then show ?case by (simp add: repliesCalls_def)
next
  case (Cons c cs)
  show ?case
  proof (cases "rcount c > 0")
    case True
    let ?f = "repliesCall oid ck vid c"
    let ?s1 = "step (Submit ?f) s"
    have c: "created s = length fs" using Cons.prems(3) by (simp add: fifo_ok_def)
    have ih: "pool_ok (snd (submitReplyTasks oid ck vid cs ?s1)) \<and>
         answers_ok e (snd (submitReplyTasks oid ck vid cs ?s1)) \<and>
         fifo_ok ((fs @ [?f]) @ repliesCalls oid ck vid cs) (snd (submitReplyTasks oid ck vid cs ?s1)) \<and>
         fst (submitReplyTasks oid ck vid cs ?s1) = promiseRefs (length (fs @ [?f])) cs \<and>
         concurrency (snd (submitReplyTasks oid ck vid cs ?s1)) = concurrency ?s1"
      by (rule Cons.IH [OF pool_ok_step [OF Cons.prems(1)]
            answers_ok_Submit [OF Cons.prems(2,1)] fifo_ok_Submit [OF Cons.prems(3)]])
    have sub: "submitReplyTasks oid ck vid (c # cs) s =
        (FromPool (created s) # fst (submitReplyTasks oid ck vid cs ?s1),
         snd (submitReplyTasks oid ck vid cs ?s1))"
      using True by (simp add: schedule_eq split: prod.splits del: step.simps)
    have rc: "repliesCalls oid ck vid (c # cs) = ?f # repliesCalls oid ck vid cs"
      using True by (simp add: repliesCalls_def)
    have i1: "pool_ok (snd (submitReplyTasks oid ck vid cs ?s1))"
      and i2: "answers_ok e (snd (submitReplyTasks oid ck vid cs ?s1))"
      and i3: "fifo_ok (fs @ ?f # repliesCalls oid ck vid cs) (snd (submitReplyTasks oid ck vid cs ?s1))"
      and i4: "fst (submitReplyTasks oid ck vid cs ?s1) = promiseRefs (Suc (length fs)) cs"
      and i5: "concurrency (snd (submitReplyTasks oid ck vid cs ?s1)) = concurrency s"
      using ih by (simp_all only: append_assoc append_Cons append_Nil length_append
          list.size concurrency_step) simp_all
    have i6: "FromPool (created s) # promiseRefs (Suc (length fs)) cs
        = promiseRefs (length fs) (c # cs)"
      using True c by simp
    show ?thesis unfolding sub rc fst_conv snd_conv i4 i6
      using i1 i2 i3 i5 by (intro conjI) (rule refl | assumption)+
  next
    case False
    have sub: "submitReplyTasks oid ck vid (c # cs) s =
        (Already (Replies []) # fst (submitReplyTasks oid ck vid cs s),
         snd (submitReplyTasks oid ck vid cs s))"
      using False by (simp split: prod.splits)
    have rc: "repliesCalls oid ck vid (c # cs) = repliesCalls oid ck vid cs"
      using False by (simp add: repliesCalls_def)
    show ?thesis unfolding sub rc using Cons.IH [OF Cons.prems] False by simp
  qed
qed

lemma promiseRefs_states:
  assumes "\<And>p. p < length (repliesCalls oid ck vid cs) \<Longrightarrow>
     g (k + p) = Some (Resolved (fetchReplies e (repliesCalls oid ck vid cs ! p)))"
  shows "map (\<lambda>pr. case pr of Already v \<Rightarrow> Some (Resolved v) | FromPool p \<Rightarrow> g p) (promiseRefs k cs)
       = map (\<lambda>c. Some (Resolved (repliesFor e True oid ck vid c))) cs"
  using assms
proof (induction cs arbitrary: k)
  case Nil
  show ?case by simp
next
  case (Cons c cs)
  show ?case
  proof (cases "rcount c > 0")
    case True
    have rc: "repliesCalls oid ck vid (c # cs) = repliesCall oid ck vid c # repliesCalls oid ck vid cs"
      using True by (simp add: repliesCalls_def)
    have h: "g k = Some (Resolved (fetchReplies e (repliesCall oid ck vid c)))"
      using Cons.prems [of 0] by (simp add: rc)
    have t: "\<And>p. p < length (repliesCalls oid ck vid cs) \<Longrightarrow>
        g (Suc k + p) = Some (Resolved (fetchReplies e (repliesCalls oid ck vid cs ! p)))"
      using Cons.prems [of "Suc p" for p] by (simp add: rc)
    show ?thesis using True h Cons.IH [OF t] by (simp add: repliesFor_def)
  next
    case False
    have rc: "repliesCalls oid ck vid (c # cs) = repliesCalls oid ck vid cs"
      using False by (simp add: repliesCalls_def)
    show ?thesis using False Cons.IH [of k] Cons.prems by (simp add: rc repliesFor_def)
  qed
qed

lemma firstRejected_resolved:
  "firstRejected (map (\<lambda>c. Some (Resolved (g c))) cs) = None"
  by (induction cs) simp_all

lemma allResolved_resolved:
  "allResolved (map (\<lambda>c. Some (Resolved (g c))) cs) = Some (map g cs)"
  by (induction cs) simp_all

lemma Promise_all_resolved:
  "Promise_all (map (\<lambda>c. Some (Resolved (g c))) cs) = Some (Inr (map g cs))"
  by (simp add: Promise_all_def firstRejected_resolved allResolved_resolved)

lemma map_fn_taskObjects [simp]: "map fn (taskObjects fs) = fs"
  by (induction fs rule: rev_induct) (simp_all add: taskObjects_snoc, simp add: taskObjects_def)

lemma taskObjects_nth:
  "p < length fs \<Longrightarrow> taskObjects fs ! p = \<lparr>fn = fs ! p, promise = p\<rparr>"
  by (simp add: taskObjects_def)

lemma drained_results:
  assumes "pool_ok s" "answers_ok e s" "inFlight s = []" "0 < concurrency s"
    "started s @ queue s = taskObjects fs" "p < length fs"
  shows "promises s p = Some (Resolved (fetchReplies e (fs ! p)))" "started s = taskObjects fs"
proof -
  have "activeCount s = 0" using assms(1,3) by (simp add: pool_ok_def count_ok_def)
  then have "queue s = []" using assms(1,4) by (auto simp: pool_ok_def slots_ok_def)
  then show st: "started s = taskObjects fs" using assms(5) by simp
  let ?t = "\<lparr>fn = fs ! p, promise = p\<rparr>"
  have t: "?t \<in> set (started s)"
    unfolding st using assms(6) taskObjects_nth [OF assms(6)]
    by (metis length_taskObjects nth_mem)
  have "?t \<notin> set (inFlight s)" using assms(3) by simp
  then have d: "stage s p = Done" using t by (simp add: inFlight_def)
  have "outcome_ok s" using assms(1) by (simp add: pool_ok_def)
  then have "fnPromise s p \<noteq> None \<and> promises s p = fnPromise s p"
    using d by (simp add: outcome_ok_def)
  then obtain oc where oc: "fnPromise s p = Some oc" "promises s p = Some oc" by auto
  have "oc = Resolved (fetchReplies e (fn ?t))"
    using assms(2) t oc(1) unfolding answers_ok_def by (metis task.select_convs(2))
  then show "promises s p = Some (Resolved (fetchReplies e (fs ! p)))" using oc(2) by simp
qed

lemma answers_ok_init: "answers_ok e (simplePool c)"
  by (simp add: answers_ok_def simplePool_def)

lemma fifo_ok_init: "fifo_ok [] (simplePool c)"
  by (simp add: fifo_ok_def simplePool_def taskObjects_def)

lemma fifo_measure:
  assumes "pool_ok s" "fifo_ok fs s"
  shows "activeCount s + int (length (queue s)) \<le> int (created s)"
proof -
  have "length (started s) + length (queue s) = length fs"
    using arg_cong [OF assms(2) [unfolded fifo_ok_def, THEN conjunct1], of length] by simp
  moreover have "activeCount s \<le> int (length (started s))"
    using assms(1) by (simp add: pool_ok_def count_ok_def inFlight_def)
  moreover have "created s = length fs" using assms(2) by (simp add: fifo_ok_def)
  ultimately show ?thesis by linarith
qed

lemma fanout_join:
  fixes cs :: "comment list" and oid :: qval and ck vid :: string
  defines "X \<equiv> submitReplyTasks oid ck vid cs (simplePool 5)"
  shows "\<exists>s'. eventLoop (created (snd X)) e (snd X) = Some s' \<and>
           started s' = taskObjects (repliesCalls oid ck vid cs) \<and>
           Promise_all (map (promiseState s') (fst X))
             = Some (Inr (map (repliesFor e True oid ck vid) cs))"
proof -
  let ?fs = "repliesCalls oid ck vid cs"
  have spec: "pool_ok (snd X)" "answers_ok e (snd X)" "fifo_ok ?fs (snd X)"
    "fst X = promiseRefs 0 cs" "concurrency (snd X) = 5"
    using submitReplyTasks_spec [OF pool_ok_init [of 5] answers_ok_init [of e 5] fifo_ok_init [of 5],
        where oid = oid and ck = ck and vid = vid and cs = cs]
    unfolding X_def by (simp_all add: simplePool_def)
  obtain s' where s': "eventLoop (created (snd X)) e (snd X) = Some s'" "pool_ok s'"
      "answers_ok e s'" "inFlight s' = []" "started s' @ queue s' = started (snd X) @ queue (snd X)"
      "concurrency s' = concurrency (snd X)"
    using eventLoop_completes [OF spec(1,2) fifo_measure [OF spec(1,3)]] by blast
  have all: "started s' @ queue s' = taskObjects ?fs"
    using s'(5) spec(3) by (simp add: fifo_ok_def)
  have pos: "0 < concurrency s'" using s'(6) spec(5) by simp
  have st: "started s' = taskObjects ?fs"
  proof -
    have "activeCount s' = 0" using s'(2,4) by (simp add: pool_ok_def count_ok_def)
    then have "queue s' = []" using s'(2) pos by (auto simp: pool_ok_def slots_ok_def)
    then show ?thesis using all by simp
  qed
  have res: "\<And>p. p < length ?fs \<Longrightarrow>
      promises s' (0 + p) = Some (Resolved (fetchReplies e (?fs ! p)))"
    using drained_results(1) [OF s'(2,3,4) pos all] by simp
  have ps: "promiseState s' = (\<lambda>pr. case pr of Already v \<Rightarrow> Some (Resolved v)
      | FromPool p \<Rightarrow> promises s' p)"
    by (rule ext) (simp add: promiseState_def)
  have "map (promiseState s') (fst X)
      = map (\<lambda>c. Some (Resolved (repliesFor e True oid ck vid c))) cs"
    unfolding ps spec(4) using res by (rule promiseRefs_states)
  then have "Promise_all (map (promiseState s') (fst X))
      = Some (Inr (map (repliesFor e True oid ck vid) cs))"
    by (simp only: Promise_all_resolved)
  then show ?thesis using s'(1) st by blast
qed

lemma no_fanout_join:
  "eventLoop 0 e (simplePool 5) = Some (simplePool 5) \<and>
   Promise_all (map (promiseState (simplePool 5)) (map (\<lambda>_. Already (Replies [])) cs))
     = Some (Inr (map (repliesFor e False oid ck vid) cs))"
proof -
  have "map (promiseState (simplePool 5)) (map (\<lambda>_. Already (Replies [])) cs)
      = map (\<lambda>c. Some (Resolved (repliesFor e False oid ck vid c))) cs"
    by (simp add: promiseState_def repliesFor_def)
  then have "Promise_all (map (promiseState (simplePool 5)) (map (\<lambda>_. Already (Replies [])) cs))
     = Some (Inr (map (repliesFor e False oid ck vid) cs))"
    by (simp only: Promise_all_resolved)
  then show ?thesis by (simp add: eventLoop.simps inFlight_def simplePool_def)
qed

lemma generateMarkdownResponse_eq:
  assumes "allCommentsOf pageInfo \<noteq> []"
  shows "generateMarkdownResponse e pageInfo inc ck vid oid =
     Some (map repliesRequest (if inc then repliesCalls oid ck vid (allCommentsOf pageInfo) else []),
           Inr (renderComments e pageInfo
                  (map (repliesFor e inc oid ck vid) (allCommentsOf pageInfo))))"
proof -
  let ?cs = "allCommentsOf pageInfo"
  obtain cp tp md where ph: "pageHeader pageInfo = (cp, tp, md)"
    by (cases "pageHeader pageInfo") auto
  show ?thesis
  proof (cases inc)
    case True
    let ?X = "submitReplyTasks oid ck vid ?cs (simplePool 5)"
    obtain s' where s': "eventLoop (created (snd ?X)) e (snd ?X) = Some s'"
        "started s' = taskObjects (repliesCalls oid ck vid ?cs)"
        "Promise_all (map (promiseState s') (fst ?X))
             = Some (Inr (map (repliesFor e True oid ck vid) ?cs))"
      using fanout_join [where oid = oid and ck = ck and vid = vid and cs = ?cs and e = e] by blast
    have rt: "replyTasks True oid ck vid ?cs (simplePool 5) = (fst ?X, snd ?X)"
      by (simp add: replyTasks_def)
    have rq: "map (\<lambda>t. repliesRequest (fn t)) (started s')
        = map repliesRequest (repliesCalls oid ck vid ?cs)"
      unfolding s'(2) using map_map [of repliesRequest fn "taskObjects (repliesCalls oid ck vid ?cs)"]
      by (simp add: comp_def)
    show ?thesis
      using assms True
      by (simp add: generateMarkdownResponse_def ph rt s'(1) s'(3) rq Let_def case_prod_beta)
  next
    case False
    have rt: "replyTasks False oid ck vid ?cs (simplePool 5)
        = (map (\<lambda>_. Already (Replies [])) ?cs, simplePool 5)"
      by (simp add: replyTasks_def)
    have c0: "created (simplePool 5 :: reply_pool) = 0" "started (simplePool 5 :: reply_pool) = []"
      by (simp_all add: simplePool_def)
    show ?thesis
      using assms False no_fanout_join [where e = e and cs = ?cs and oid = oid and ck = ck and vid = vid]
      by (simp add: generateMarkdownResponse_def ph rt c0 Let_def)
  qed
qed

lemma generateMarkdownResponse_empty:
  assumes "allCommentsOf pageInfo = []"
  shows "generateMarkdownResponse e pageInfo inc ck vid oid =
     Some ([], Inr (snd (snd (pageHeader pageInfo)) @ md_no_comments @ md_done_empty))"
  using assms by (simp add: generateMarkdownResponse_def Let_def split: prod.splits)

lemma generateMarkdownResponse_total:
  "\<exists>reqs md. generateMarkdownResponse e pageInfo inc ck vid oid = Some (reqs, Inr md) \<and>
     (\<forall>rq \<in> set reqs. Cookie rq = ck)"
proof (cases "allCommentsOf pageInfo = []")
  case True
  then show ?thesis by (simp add: generateMarkdownResponse_empty)
next
  case False
  then show ?thesis
    by (auto simp: generateMarkdownResponse_eq repliesCalls_def repliesRequest_def repliesCall_def)
qed

lemma gm_not_None [simp]: "generateMarkdownResponse e pageInfo inc ck vid oid \<noteq> None"
  using generateMarkdownResponse_total [of e pageInfo inc ck vid oid] by auto


lemma gm_no_throw:
  "generateMarkdownResponse e pageInfo inc ck vid oid \<noteq> Some (reqs, Inl err)"
  using generateMarkdownResponse_total [of e pageInfo inc ck vid oid] by auto


lemma checkArgs_invalid_cookie:
  "\<not> validateCookie (effectiveCookie e a) \<Longrightarrow> checkArgs e a = Inl (Error msg_cookie)"
  by (simp add: checkArgs_def Let_def)





lemma try_invalid_cookie:
  "\<not> validateCookie (effectiveCookie e a) \<Longrightarrow>
   tryGetVideoComments e a = Some ([], Inl (Error msg_cookie))"
  by (simp add: tryGetVideoComments_def checkArgs_invalid_cookie)

lemma commentWithReplies_map:
  "commentWithReplies cs (map g cs) = map (\<lambda>c. (c, g c)) cs"
proof (rule nth_equalityI)
  show "length (commentWithReplies cs (map g cs)) = length (map (\<lambda>c. (c, g c)) cs)"
    by (simp add: commentWithReplies_def)
next
  fix i
  assume "i < length (commentWithReplies cs (map g cs))"
  then have i: "i < length cs" by (simp add: commentWithReplies_def)
  then show "commentWithReplies cs (map g cs) ! i = map (\<lambda>c. (c, g c)) cs ! i"
    by (simp add: commentWithReplies_def)
qed

lemma replyTasks_submissions:
  "started (snd (replyTasks inc oid ck vid cs (simplePool 5)))
     @ queue (snd (replyTasks inc oid ck vid cs (simplePool 5)))
   = taskObjects (if inc then repliesCalls oid ck vid cs else [])"
proof (cases inc)
  case True
  have "fifo_ok ([] @ repliesCalls oid ck vid cs) (snd (submitReplyTasks oid ck vid cs (simplePool 5)))"
    using submitReplyTasks_spec [OF pool_ok_init [of 5] answers_ok_init [of _ 5]
        fifo_ok_init [of 5], where oid = oid and ck = ck and vid = vid and cs = cs]
    by blast
  then show ?thesis using True by (simp add: replyTasks_def fifo_ok_def)
next
  case False
  then show ?thesis by (simp add: replyTasks_def simplePool_def taskObjects_def)
qed


lemma getVideoComments_catch:
  "tryGetVideoComments e a = Some (reqs, Inl err) \<Longrightarrow>
   getVideoComments e a = Some (reqs, textResult (failure_prefix @ js_error.message err))"
  by (simp add: getVideoComments_def)


lemma Error_message [simp]: "js_error.message (Error m) = m"
  by (simp add: Error_def)

lemma fetchComments_down:
  assumes "\<And>rq. reply e rq = Inl err"
  shows "snd (fetchComments e oid p ps so ck vid) =
     Inl (Error (if js_error.code err = Some ''ECONNABORTED'' then msg_timeout
                 else msg_comments_failed @ orDefault (js_error.message err) msg_unknown_network))"
  by (simp add: fetchComments_def assms)

lemma resolveOid_aid:
  "truthy (aid a) \<Longrightarrow> resolveOid e a ck = ([], Inr (QStr (case aid a of Some x \<Rightarrow> x | None \<Rightarrow> [])))"
  by (simp add: resolveOid_def)

lemma network_failure:
  assumes "checkArgs e a = Inr v" "truthy (aid a)" "\<And>rq. reply e rq = Inl err"
  shows "\<exists>reqs. getVideoComments e a =
     Some (reqs, textResult (failure_prefix @
       (if js_error.code err = Some ''ECONNABORTED'' then msg_timeout
        else msg_comments_failed @ orDefault (js_error.message err) msg_unknown_network)))"
proof -
  let ?oid = "QStr (case aid a of Some x \<Rightarrow> x | None \<Rightarrow> [])"
  obtain reqs2 r2 where f: "fetchComments e ?oid (page_c v) (pageSize_c v) (sort_c v) (cookie_c v)
      (videoIdForRef a) = (reqs2, r2)"
    by (cases "fetchComments e ?oid (page_c v) (pageSize_c v) (sort_c v) (cookie_c v)
      (videoIdForRef a)") auto
  have "r2 = Inl (Error (if js_error.code err = Some ''ECONNABORTED'' then msg_timeout
                 else msg_comments_failed @ orDefault (js_error.message err) msg_unknown_network))"
    using fetchComments_down [OF assms(3), of ?oid "page_c v" "pageSize_c v" "sort_c v"
        "cookie_c v" "videoIdForRef a"] f by simp
  then have "tryGetVideoComments e a = Some (reqs2,
      Inl (Error (if js_error.code err = Some ''ECONNABORTED'' then msg_timeout
                 else msg_comments_failed @ orDefault (js_error.message err) msg_unknown_network)))"
    using assms(1) resolveOid_aid [OF assms(2)] f by (simp add: tryGetVideoComments_def)
  then show ?thesis using getVideoComments_catch by fastforce
qed

lemma api_failure:
  assumes "checkArgs e a = Inr v" "truthy (aid a)" "\<And>rq. reply e rq = Inr body"
    "reply_code body \<noteq> 0"
  shows "\<exists>reqs. getVideoComments e a =
     Some (reqs, textResult (failure_prefix @
       apiErrorMessage (reply_code body) (reply_message body)))"
proof -
  let ?oid = "QStr (case aid a of Some x \<Rightarrow> x | None \<Rightarrow> [])"
  obtain reqs2 r2 where f: "fetchComments e ?oid (page_c v) (pageSize_c v) (sort_c v) (cookie_c v)
      (videoIdForRef a) = (reqs2, r2)"
    by (cases "fetchComments e ?oid (page_c v) (pageSize_c v) (sort_c v) (cookie_c v)
      (videoIdForRef a)") auto
  have "r2 = Inr body" using f by (auto simp: fetchComments_def assms(3))
  then have "tryGetVideoComments e a = Some (reqs2,
      Inl (Error (apiErrorMessage (reply_code body) (reply_message body))))"
    using assms(1,4) resolveOid_aid [OF assms(2)] f
    by (simp add: tryGetVideoComments_def checkResponse_def)
  then show ?thesis using getVideoComments_catch by fastforce
qed








section \<open>The claims about the tool\<close>




text \<open>
  C9, as amended. For every page of fetched comments: when \<open>includeReplies\<close> is true,
  exactly one task is handed to the pool for each comment with \<open>rcount > 0\<close>, in the order
  of the comments, and none for the others; when it is false no task is handed to the
  pool. For a page with at least one comment, the requests sent are those of these
  tasks, and the comment list is rendered from the joined results of \<open>Promise.all\<close>, which
  hold at each index the result of that comment's own \<open>fetchReplies\<close> call (or the empty
  list where no task was submitted); each comment is paired with the result at its own
  index, and the call returns for every order in which the responses arrive. For a page
  without comments the report says so and no request is sent.
\<close>

theorem reply_fanout:
  "started (snd (replyTasks inc oid ck vid (allCommentsOf pageInfo) (simplePool 5)))
     @ queue (snd (replyTasks inc oid ck vid (allCommentsOf pageInfo) (simplePool 5)))
   = taskObjects (if inc then map (repliesCall oid ck vid)
                                (filter (\<lambda>c. rcount c > 0) (allCommentsOf pageInfo))
                  else []) \<and>
   (allCommentsOf pageInfo \<noteq> [] \<longrightarrow>
      generateMarkdownResponse e pageInfo inc ck vid oid =
        Some (map repliesRequest
                (if inc then map (repliesCall oid ck vid)
                               (filter (\<lambda>c. rcount c > 0) (allCommentsOf pageInfo))
                 else []),
              Inr (renderComments e pageInfo
                     (map (repliesFor e inc oid ck vid) (allCommentsOf pageInfo))))) \<and>
   (allCommentsOf pageInfo = [] \<longrightarrow>
      generateMarkdownResponse e pageInfo inc ck vid oid =
        Some ([], Inr (snd (snd (pageHeader pageInfo)) @ md_no_comments @ md_done_empty))) \<and>
   commentWithReplies (allCommentsOf pageInfo)
       (map (repliesFor e inc oid ck vid) (allCommentsOf pageInfo))
     = map (\<lambda>c. (c, repliesFor e inc oid ck vid c)) (allCommentsOf pageInfo)"
  using replyTasks_submissions [of inc oid ck vid "allCommentsOf pageInfo"]
    generateMarkdownResponse_eq [of pageInfo e inc ck vid oid]
    generateMarkdownResponse_empty [of pageInfo e inc ck vid oid]
    commentWithReplies_map [of "allCommentsOf pageInfo" "repliesFor e inc oid ck vid"]
  by (simp add: repliesCalls_def)

theorem reply_fanout_witness:
  "allCommentsOf example_page \<noteq> [] \<and>
   map_option fst (generateMarkdownResponse offline_env example_page True ''SESSDATA=1''
       ''av170001'' (QStr ''170001''))
     = Some [repliesRequest (repliesCall (QStr ''170001'') ''SESSDATA=1'' ''av170001''
               example_comment)] \<and>
   map (repliesFor offline_env True (QStr ''170001'') ''SESSDATA=1'' ''av170001'')
       (allCommentsOf example_page)
     = [fetch_failed, Replies []] \<and>
   allCommentsOf \<lparr>page_of = None, hots = None, replies = Some []\<rparr> = [] \<and>
   map_option fst (generateMarkdownResponse offline_env
       \<lparr>page_of = None, hots = None, replies = Some []\<rparr> True ''SESSDATA=1''
       ''av170001'' (QStr ''170001'')) = Some []"
  using reply_fanout [of True "QStr ''170001''" "''SESSDATA=1''" "''av170001''" example_page
      offline_env]
    reply_fanout [of True "QStr ''170001''" "''SESSDATA=1''" "''av170001''"
      "\<lparr>page_of = None, hots = None, replies = Some []\<rparr>" offline_env]
  by (simp add: allCommentsOf_def example_page_def example_comment_def example_plain_def
      repliesFor_def fetchReplies_def offline_env_def)

text \<open>
  C9 as stated fails: with \<open>includeReplies\<close> false, a comment with \<open>rcount = 3\<close> gets no
  task; the pool is untouched and no request for nested replies is sent.
\<close>

theorem reply_fanout_counterexample:
  "0 < rcount example_comment \<and>
   replyTasks False (QStr ''170001'') ''SESSDATA=1'' ''av170001'' [example_comment, example_plain]
       (simplePool 5)
     = ([Already (Replies []), Already (Replies [])], simplePool 5) \<and>
   created (simplePool 5 :: reply_pool) = 0 \<and>
   queue (simplePool 5 :: reply_pool) = [] \<and>
   started (simplePool 5 :: reply_pool) = [] \<and>
   map_option fst (generateMarkdownResponse offline_env example_page False ''SESSDATA=1''
       ''av170001'' (QStr ''170001'')) = Some []"
proof -
  have "allCommentsOf example_page \<noteq> []"
    by (simp add: allCommentsOf_def example_page_def)
  then have "map_option fst (generateMarkdownResponse offline_env example_page False ''SESSDATA=1''
       ''av170001'' (QStr ''170001'')) = Some []"
    by (simp add: generateMarkdownResponse_eq)
  then show ?thesis by (simp add: replyTasks_def example_comment_def simplePool_def)
qed




end
